theory Spec2Isabelle
  imports Complex_Main "HOL-Library.Countable"
begin

section \<open>Data model\<close>

text \<open>
  The development embeds \<^verbatim>\<open>@here/harp-mapview/lib/FrustumIntersection.ts\<close>.
  JavaScript numbers are read as real numbers (no rounding, no NaN); the one non-finite
  value the source writes itself, \<^verbatim>\<open>Infinity\<close> as the area of a root entry, is a
  constructor of its own. Tile levels, rows and columns are naturals, offsets are integers.
\<close>

record TileKey =
  row :: nat
  column :: nat
  level :: nat

definition fromRowColumnLevel :: "nat \<Rightarrow> nat \<Rightarrow> nat \<Rightarrow> TileKey" where
  "fromRowColumnLevel r c l = \<lparr>row = r, column = c, level = l\<rparr>"

datatype number = Num real | Infinity

fun greaterThanZero :: "number \<Rightarrow> bool" where
  "greaterThanZero (Num r) = (0 < r)"
| "greaterThanZero Infinity = True"

record TileKeyEntry =
  tileKey :: TileKey
  area :: number
  offset :: int
  minElevation :: real
  maxElevation :: real

record GeoCoordinates =
  latitude :: real
  longitude :: real
  altitude :: real

record GeoBox =
  southWest :: GeoCoordinates
  northEast :: GeoCoordinates

record Vector3 =
  vx :: real
  vy :: real
  vz :: real

record Box3 =
  box_min :: Vector3
  box_max :: Vector3

record OrientedBox3 =
  obb_position :: Vector3
  xAxis :: Vector3
  yAxis :: Vector3
  zAxis :: Vector3
  extents :: Vector3

datatype ProjectionType = Planar | Spherical

text \<open>
  Modelled from the spec: the declaration of \<^verbatim>\<open>CalculationStatus\<close> lives in
  \<^verbatim>\<open>ElevationRangeSource.ts\<close>, which is not part of the sources at hand. The spec
  lists the precision status of an elevation range as final-precise, approximate or
  pending; the traversal only ever compares against \<^verbatim>\<open>FinalPrecise\<close>.
\<close>

datatype CalculationStatus = FinalPrecise | Approximate | Pending

record ElevationRange =
  range_minElevation :: real
  range_maxElevation :: real
  calculationStatus :: CalculationStatus

text \<open>
  The collaborators are objects whose classes are declared outside this file; each is a
  record of the methods the traversal calls. \<open>ts_ref\<close> is the identity of a tiling
  scheme object: the source compares tiling schemes with \<^verbatim>\<open>===\<close>.
\<close>

record TilingScheme =
  ts_ref :: nat
  ts_getGeoBox :: "TileKey \<Rightarrow> GeoBox"
  getSubTileKeys :: "TileKey \<Rightarrow> TileKey list"

record ElevationRangeSource =
  getTilingScheme :: TilingScheme
  getElevationRange :: "TileKey \<Rightarrow> ElevationRange"

record DataSource =
  shouldSubdivide :: "real option \<Rightarrow> TileKey \<Rightarrow> bool"

record Projection =
  ptype :: ProjectionType
  projectBox_Box3 :: "GeoBox \<Rightarrow> Box3"
  projectBox_OrientedBox3 :: "GeoBox \<Rightarrow> OrientedBox3"
  unprojectPoint :: "Vector3 \<Rightarrow> GeoCoordinates"

record PerspectiveCamera =
  fov :: real
  aspect :: real
  position :: Vector3

text \<open>
  The state of a \<^verbatim>\<open>FrustumIntersection\<close> object. \<open>'m\<close> is the type of
  \<^verbatim>\<open>THREE.Matrix4\<close>, kept abstract together with the operations of three.js on it.
  The frustum, the tile culler, the attitude of the camera and the composite key codec
  \<^verbatim>\<open>TileOffsetUtils.getKeyForTileKeyAndOffset\<close> are given by the functions that the
  source calls on them.
\<close>

record 'm FrustumIntersection =
  m_camera :: PerspectiveCamera
  mapView_projection :: Projection
  m_extendedFrustumCulling :: bool
  m_tileWrappingEnabled :: bool
  m_rootTileKeys :: "TileKeyEntry list"
  m_viewProjectionMatrix :: 'm
  m_frustum_intersectsBox :: "Box3 \<Rightarrow> bool"
  m_mapTileCuller_frustumIntersectsTileBox :: "Box3 \<Rightarrow> bool"
  orientedBox_intersects :: "OrientedBox3 \<Rightarrow> bool"
  extractAttitude_pitch :: real
  getKeyForTileKeyAndOffset :: "TileKey \<Rightarrow> int \<Rightarrow> nat"
  applyMatrix4 :: "Vector3 \<Rightarrow> 'm \<Rightarrow> Vector3"
  multiply :: "'m \<Rightarrow> 'm \<Rightarrow> 'm"
  makeTranslation :: "real \<Rightarrow> real \<Rightarrow> real \<Rightarrow> 'm"
  getRotationMatrix :: "OrientedBox3 \<Rightarrow> 'm"

section \<open>The geographic box of a tile copy\<close>

definition getGeoBox :: "TilingScheme \<Rightarrow> TileKey \<Rightarrow> int \<Rightarrow> GeoBox" where
  "getGeoBox tilingScheme childTileKey off =
     (let geoBox = ts_getGeoBox tilingScheme childTileKey;
          longitudeOffset = 360 * real_of_int off
      in geoBox
           \<lparr>northEast := (northEast geoBox)
              \<lparr>longitude := longitude (northEast geoBox) + longitudeOffset\<rparr>,
            southWest := (southWest geoBox)
              \<lparr>longitude := longitude (southWest geoBox) + longitudeOffset\<rparr>\<rparr>)"

section \<open>The area estimator\<close>

datatype TileBounds = AxisAligned Box3 | Oriented OrientedBox3

text \<open>
  The contour loop \<^verbatim>\<open>for (let p = n - 1, q = 0; q < n; p = q++)\<close>: \<open>contourLoop c n p q acc\<close>
  is the loop from the state \<open>(p, q)\<close> with \<open>acc\<close> the running value of
  \<^verbatim>\<open>subTileArea\<close>. The source only runs it on a contour of five points, with indices in range.
\<close>

function contourLoop :: "Vector3 list \<Rightarrow> nat \<Rightarrow> nat \<Rightarrow> nat \<Rightarrow> real \<Rightarrow> real" where
  "contourLoop contour n p q acc =
     (if q < n
      then contourLoop contour n q (Suc q)
             (acc + (vx (contour ! p) * vy (contour ! q) - vx (contour ! q) * vy (contour ! p)))
      else acc)"
  by pat_completeness auto
termination
  by (relation "measure (\<lambda>(contour, n, p, q, acc). n - q)") auto

text \<open>\<^verbatim>\<open>THREE.Box2\<close>: \<open>None\<close> is the empty box \<^verbatim>\<open>new THREE.Box2()\<close>.\<close>

type_synonym Box2 = "((real \<times> real) \<times> (real \<times> real)) option"

fun expandByPoint :: "Box2 \<Rightarrow> real \<times> real \<Rightarrow> Box2" where
  "expandByPoint None pt = Some (pt, pt)"
| "expandByPoint (Some ((minx, miny), (maxx, maxy))) (px, py) =
     Some ((min minx px, min miny py), (max maxx px, max maxy py))"

fun getSize :: "Box2 \<Rightarrow> real \<times> real" where
  "getSize None = (0, 0)"
| "getSize (Some ((minx, miny), (maxx, maxy))) = (maxx - minx, maxy - miny)"

definition vector3 :: "real \<Rightarrow> real \<Rightarrow> real \<Rightarrow> Vector3" where
  "vector3 a b c = \<lparr>vx = a, vy = b, vz = c\<rparr>"

definition computeSubTileArea :: "'m FrustumIntersection \<Rightarrow> TileBounds \<Rightarrow> real" where
  "computeSubTileArea fi tileBounds =
     (case tileBounds of
        AxisAligned box \<Rightarrow>
          if (if m_extendedFrustumCulling fi
              then m_mapTileCuller_frustumIntersectsTileBox fi box else True)
             \<and> m_frustum_intersectsBox fi box
          then
            let contour4 =
                  [applyMatrix4 fi (vector3 (vx (box_min box)) (vy (box_min box)) 0)
                     (m_viewProjectionMatrix fi),
                   applyMatrix4 fi (vector3 (vx (box_max box)) (vy (box_min box)) 0)
                     (m_viewProjectionMatrix fi),
                   applyMatrix4 fi (vector3 (vx (box_max box)) (vy (box_max box)) 0)
                     (m_viewProjectionMatrix fi),
                   applyMatrix4 fi (vector3 (vx (box_min box)) (vy (box_max box)) 0)
                     (m_viewProjectionMatrix fi)];
                contour = contour4 @ [contour4 ! 0];
                n = length contour;
                subTileArea = contourLoop contour n (n - 1) 0 0
            in \<bar>subTileArea * (1 / 2)\<bar>
          else 0
      | Oriented obb \<Rightarrow>
          if \<not> orientedBox_intersects fi obb then 0
          else
            let center = obb_position obb;
                ext = extents obb;
                modelViewProjMatrix =
                  multiply fi
                    (multiply fi (m_viewProjectionMatrix fi)
                       (makeTranslation fi (vx center) (vy center) (vz center)))
                    (getRotationMatrix fi obb);
                projectedPoints =
                  [applyMatrix4 fi (vector3 (- vx ext) (- vy ext) (- vz ext)) modelViewProjMatrix,
                   applyMatrix4 fi (vector3 (vx ext) (- vy ext) (- vz ext)) modelViewProjMatrix,
                   applyMatrix4 fi (vector3 (vx ext) (vy ext) (- vz ext)) modelViewProjMatrix,
                   applyMatrix4 fi (vector3 (- vx ext) (vy ext) (- vz ext)) modelViewProjMatrix,
                   applyMatrix4 fi (vector3 (- vx ext) (- vy ext) (vz ext)) modelViewProjMatrix,
                   applyMatrix4 fi (vector3 (vx ext) (- vy ext) (vz ext)) modelViewProjMatrix,
                   applyMatrix4 fi (vector3 (vx ext) (vy ext) (vz ext)) modelViewProjMatrix,
                   applyMatrix4 fi (vector3 (- vx ext) (vy ext) (vz ext)) modelViewProjMatrix];
                screenBox = fold (\<lambda>point box. expandByPoint box (vx point, vy point))
                              projectedPoints None;
                size = getSize screenBox
            in fst size * snd size)"

section \<open>The root key selector\<close>

definition degToRad :: "real \<Rightarrow> real" where
  "degToRad degrees = degrees * (pi / 180)"

definition clamp :: "int \<Rightarrow> int \<Rightarrow> int \<Rightarrow> int" where
  "clamp v lo hi = max lo (min hi v)"

definition newTileKeyEntry ::
  "TileKey \<Rightarrow> number \<Rightarrow> int \<Rightarrow> real \<Rightarrow> real \<Rightarrow> TileKeyEntry" where
  "newTileKeyEntry k a off mn mx =
     \<lparr>tileKey = k, area = a, offset = off, minElevation = mn, maxElevation = mx\<rparr>"

text \<open>
  The wraparound branch, up to the value of \<^verbatim>\<open>offsetRange\<close> (lines 357 to 421 of the
  source). \<^verbatim>\<open>Math.round\<close> rounds halves up, as \<^term>\<open>round\<close> does.
  The aspect ratio of a camera is its width over its height; at an aspect ratio of 0
  JavaScript's \<^verbatim>\<open>1 / 0\<close> is \<^verbatim>\<open>Infinity\<close>, which the reals of the model
  do not have.
\<close>

definition startOffset :: "'m FrustumIntersection \<Rightarrow> Vector3 \<Rightarrow> int" where
  "startOffset fi worldCenter =
     (let worldGeoPoint = unprojectPoint (mapView_projection fi) worldCenter
      in round (longitude worldGeoPoint / 360))"

definition offsetRange :: "'m FrustumIntersection \<Rightarrow> Vector3 \<Rightarrow> int" where
  "offsetRange fi worldCenter =
     (let worldGeoPoint = unprojectPoint (mapView_projection fi) worldCenter;
          camera = m_camera fi;
          cameraPitch = extractAttitude_pitch fi;
          aspect' = (if aspect camera > 1 then aspect camera else 1 / aspect camera);
          totalAngleRad = degToRad ((fov camera * aspect') / 2) + cameraPitch;
          worldLengthHorizontalFull = tan totalAngleRad * vz (position camera);
          worldLengthHorizontalSmallerHalf = tan cameraPitch * vz (position camera);
          worldLengthHorizontal = worldLengthHorizontalFull - worldLengthHorizontalSmallerHalf;
          worldLeftPoint =
            vector3 (vx worldCenter - worldLengthHorizontal) (vy worldCenter) (vz worldCenter);
          worldLeftGeoPoint = unprojectPoint (mapView_projection fi) worldLeftPoint
      in clamp
           \<lceil>\<bar>(longitude worldGeoPoint - longitude worldLeftGeoPoint) / 360\<bar> * sqrt 2\<rceil>
           0 7)"

definition computeRequiredInitialRootTileKeys ::
  "'m FrustumIntersection \<Rightarrow> Vector3 \<Rightarrow> TileKeyEntry list" where
  "computeRequiredInitialRootTileKeys fi worldCenter =
     (let rootTileKey = fromRowColumnLevel 0 0 0;
          tileWrappingEnabled = (ptype (mapView_projection fi) = Planar)
      in if (if \<not> tileWrappingEnabled then True else \<not> m_tileWrappingEnabled fi)
         then [newTileKeyEntry rootTileKey (Num 0) 0 0 0]
         else map (\<lambda>off. newTileKeyEntry rootTileKey (Num 0) off 0 0)
                [- offsetRange fi worldCenter + startOffset fi worldCenter ..
                 offsetRange fi worldCenter + startOffset fi worldCenter])"

section \<open>The visibility traversal\<close>

text \<open>
  \<^verbatim>\<open>assert\<close> throws when its condition is false; the three assertions of
  \<^verbatim>\<open>compute\<close> are the three errors.
\<close>

datatype error = CachedEntryMissing | CachedAreaNotPositive | DuplicateKey

text \<open>
  What a call does to its collaborators and to its work list is recorded, in order, in
  \<open>trace\<close>: a query of the elevation source, a call of the area estimator for a candidate
  child (with the offset and the area returned), a push on the work list. The trace is
  written and never read by the traversal.
\<close>

datatype event =
  GetElevationRange TileKey
| ComputeSubTileArea TileKey int real
| Push TileKeyEntry

record traversal =
  tileKeyEntries :: "nat \<rightharpoonup> TileKeyEntry"
  workList :: "TileKeyEntry list"
  calculationFinal :: bool
  trace :: "event list"

definition useElevationRangeSource :: "TilingScheme \<Rightarrow> ElevationRangeSource option \<Rightarrow> bool" where
  "useElevationRangeSource tilingScheme elevationRangeSource =
     (case elevationRangeSource of
        None \<Rightarrow> False
      | Some src \<Rightarrow> ts_ref (getTilingScheme src) = ts_ref tilingScheme)"

text \<open>\<^verbatim>\<open>zoomLevels[i]\<close>: \<^verbatim>\<open>undefined\<close> out of range.\<close>

definition zoomLevelAt :: "real list \<Rightarrow> nat \<Rightarrow> real option" where
  "zoomLevelAt zoomLevels i = (if i < length zoomLevels then Some (zoomLevels ! i) else None)"

text \<open>\<^verbatim>\<open>dataSources.some((ds, i) => ds.shouldSubdivide(zoomLevels[i], tileKey))\<close>, from index \<open>i\<close>.\<close>

fun someShouldSubdivide :: "DataSource list \<Rightarrow> real list \<Rightarrow> nat \<Rightarrow> TileKey \<Rightarrow> bool" where
  "someShouldSubdivide [] zoomLevels i k = False"
| "someShouldSubdivide (ds # dss) zoomLevels i k =
     (if shouldSubdivide ds (zoomLevelAt zoomLevels i) k then True
      else someShouldSubdivide dss zoomLevels (Suc i) k)"

text \<open>
  The geographic box of a candidate child after lines 185 to 198: the altitudes are those
  of the elevation range when the elevation source is in use.
\<close>

definition childGeoBox ::
  "TilingScheme \<Rightarrow> ElevationRangeSource option \<Rightarrow> TileKey \<Rightarrow> int \<Rightarrow> GeoBox" where
  "childGeoBox tilingScheme elevationRangeSource childTileKey off =
     (let geoBox = getGeoBox tilingScheme childTileKey off
      in case elevationRangeSource of
           None \<Rightarrow> geoBox
         | Some src \<Rightarrow>
             if useElevationRangeSource tilingScheme elevationRangeSource
             then let range = getElevationRange src childTileKey
                  in geoBox
                       \<lparr>southWest := (southWest geoBox)\<lparr>altitude := range_minElevation range\<rparr>,
                        northEast := (northEast geoBox)\<lparr>altitude := range_maxElevation range\<rparr>\<rparr>
             else geoBox)"

text \<open>Lines 200 to 211: the area of the projected box.\<close>

definition childArea :: "'m FrustumIntersection \<Rightarrow> GeoBox \<Rightarrow> real" where
  "childArea fi geoBox =
     (let obbIntersections = (ptype (mapView_projection fi) = Spherical)
      in if obbIntersections
         then computeSubTileArea fi (Oriented (projectBox_OrientedBox3 (mapView_projection fi) geoBox))
         else computeSubTileArea fi (AxisAligned (projectBox_Box3 (mapView_projection fi) geoBox)))"

text \<open>The body of the loop over the children of a tile (lines 177 to 223).\<close>

definition visitChild ::
  "'m FrustumIntersection \<Rightarrow> TilingScheme \<Rightarrow> ElevationRangeSource option \<Rightarrow>
   TileKeyEntry \<Rightarrow> TileKey \<Rightarrow> traversal \<Rightarrow> error + traversal" where
  "visitChild fi tilingScheme elevationRangeSource tileEntry childTileKey st =
     (let off = offset tileEntry;
          tileKeyAndOffset = getKeyForTileKeyAndOffset fi childTileKey off
      in if tileKeyEntries st tileKeyAndOffset \<noteq> None then Inl DuplicateKey
         else
           let geoBox = childGeoBox tilingScheme elevationRangeSource childTileKey off;
               st1 =
                 (case elevationRangeSource of
                    None \<Rightarrow> st
                  | Some src \<Rightarrow>
                      if useElevationRangeSource tilingScheme elevationRangeSource
                      then st\<lparr>calculationFinal :=
                                 calculationFinal st \<and>
                                 calculationStatus (getElevationRange src childTileKey) = FinalPrecise,
                               trace := trace st @ [GetElevationRange childTileKey]\<rparr>
                      else st);
               subTileArea = childArea fi geoBox;
               st2 = st1\<lparr>trace := trace st1 @ [ComputeSubTileArea childTileKey off subTileArea]\<rparr>
           in if subTileArea > 0
              then
                let subTileEntry =
                      newTileKeyEntry childTileKey (Num subTileArea) off
                        (altitude (southWest geoBox)) (altitude (northEast geoBox))
                in Inr (st2\<lparr>tileKeyEntries := (tileKeyEntries st2)(tileKeyAndOffset \<mapsto> subTileEntry),
                             workList := workList st2 @ [subTileEntry],
                             trace := trace st2 @ [Push subTileEntry]\<rparr>)
              else Inr st2)"

fun visitChildren ::
  "'m FrustumIntersection \<Rightarrow> TilingScheme \<Rightarrow> ElevationRangeSource option \<Rightarrow>
   TileKeyEntry \<Rightarrow> TileKey list \<Rightarrow> traversal \<Rightarrow> error + traversal" where
  "visitChildren fi tilingScheme elevationRangeSource tileEntry [] st = Inr st"
| "visitChildren fi tilingScheme elevationRangeSource tileEntry (childTileKey # rest) st =
     (case visitChild fi tilingScheme elevationRangeSource tileEntry childTileKey st of
        Inl e \<Rightarrow> Inl e
      | Inr st' \<Rightarrow> visitChildren fi tilingScheme elevationRangeSource tileEntry rest st')"

text \<open>
  One round of the \<^verbatim>\<open>while\<close> loop, on a non-empty work list (lines 154 to 225).
  \<^verbatim>\<open>pop\<close> takes the last element; it cannot return \<^verbatim>\<open>undefined\<close> here.
\<close>

definition step ::
  "'m FrustumIntersection \<Rightarrow> TilingScheme \<Rightarrow> int \<Rightarrow> ElevationRangeSource option \<Rightarrow>
   real list \<Rightarrow> DataSource list \<Rightarrow> traversal \<Rightarrow> error + traversal" where
  "step fi tilingScheme maxTileLevel elevationRangeSource zoomLevels dataSources st =
     (let tileEntry = last (workList st);
          st1 = st\<lparr>workList := butlast (workList st)\<rparr>;
          k = tileKey tileEntry
      in if int (level k) > maxTileLevel then Inr st1
         else
           let proceed = someShouldSubdivide dataSources zoomLevels 0 k
           in if proceed = False then Inr st1
              else
                let uniqueKey = getKeyForTileKeyAndOffset fi k (offset tileEntry)
                in case tileKeyEntries st1 uniqueKey of
                     None \<Rightarrow> Inl CachedEntryMissing
                   | Some cachedTileEntry \<Rightarrow>
                       if \<not> greaterThanZero (area cachedTileEntry) then Inl CachedAreaNotPositive
                       else visitChildren fi tilingScheme elevationRangeSource tileEntry
                              (getSubTileKeys tilingScheme k) st1)"

text \<open>
  The \<^verbatim>\<open>while (workList.length > 0)\<close> loop. \<open>None\<close> is a loop that never ends,
  \<open>Some (Inl e)\<close> a failed assertion.
\<close>

partial_function (option) traverse ::
  "'m FrustumIntersection \<Rightarrow> TilingScheme \<Rightarrow> int \<Rightarrow> ElevationRangeSource option \<Rightarrow>
   real list \<Rightarrow> DataSource list \<Rightarrow> traversal \<Rightarrow> (error + traversal) option" where
  "traverse fi tilingScheme maxTileLevel elevationRangeSource zoomLevels dataSources st =
     (if workList st = [] then Some (Inr st)
      else case step fi tilingScheme maxTileLevel elevationRangeSource zoomLevels dataSources st of
             Inl e \<Rightarrow> Some (Inl e)
           | Inr st' \<Rightarrow>
               traverse fi tilingScheme maxTileLevel elevationRangeSource zoomLevels dataSources st')"

text \<open>Lines 133 to 144: the root entries enter the map with unbounded area.\<close>

definition insertRoot :: "'m FrustumIntersection \<Rightarrow> TileKeyEntry \<Rightarrow>
   (nat \<rightharpoonup> TileKeyEntry) \<Rightarrow> (nat \<rightharpoonup> TileKeyEntry)" where
  "insertRoot fi item m =
     m(getKeyForTileKeyAndOffset fi (tileKey item) (offset item) \<mapsto>
         newTileKeyEntry (tileKey item) Infinity (offset item) (minElevation item) (maxElevation item))"

definition initialTraversal :: "'m FrustumIntersection \<Rightarrow> traversal" where
  "initialTraversal fi =
     \<lparr>tileKeyEntries = fold (insertRoot fi) (m_rootTileKeys fi) Map.empty,
      workList = m_rootTileKeys fi,
      calculationFinal = True,
      trace = []\<rparr>"

text \<open>
  \<^verbatim>\<open>compute\<close>. The result of the source is the pair of \<open>tileKeyEntries\<close> and
  \<open>calculationFinal\<close> of the final state, whose work list is empty.
\<close>

definition compute ::
  "'m FrustumIntersection \<Rightarrow> TilingScheme \<Rightarrow> int \<Rightarrow> ElevationRangeSource option \<Rightarrow>
   real list \<Rightarrow> DataSource list \<Rightarrow> (error + traversal) option" where
  "compute fi tilingScheme maxTileLevel elevationRangeSource zoomLevels dataSources =
     traverse fi tilingScheme maxTileLevel elevationRangeSource zoomLevels dataSources
       (initialTraversal fi)"

section \<open>Notions the properties are stated with\<close>

text \<open>The entry that \<^const>\<open>visitChild\<close> builds for a child, and whether it keeps the child.\<close>

definition childEntry ::
  "'m FrustumIntersection \<Rightarrow> TilingScheme \<Rightarrow> ElevationRangeSource option \<Rightarrow>
   TileKey \<Rightarrow> int \<Rightarrow> TileKeyEntry" where
  "childEntry fi tilingScheme elevationRangeSource childTileKey off =
     newTileKeyEntry childTileKey
       (Num (childArea fi (childGeoBox tilingScheme elevationRangeSource childTileKey off))) off
       (altitude (southWest (childGeoBox tilingScheme elevationRangeSource childTileKey off)))
       (altitude (northEast (childGeoBox tilingScheme elevationRangeSource childTileKey off)))"

definition childVisible ::
  "'m FrustumIntersection \<Rightarrow> TilingScheme \<Rightarrow> ElevationRangeSource option \<Rightarrow>
   TileKey \<Rightarrow> int \<Rightarrow> bool" where
  "childVisible fi tilingScheme elevationRangeSource childTileKey off =
     (childArea fi (childGeoBox tilingScheme elevationRangeSource childTileKey off) > 0)"

definition rootEntry :: "TileKeyEntry \<Rightarrow> TileKeyEntry" where
  "rootEntry item =
     newTileKeyEntry (tileKey item) Infinity (offset item) (minElevation item) (maxElevation item)"

definition keyOf :: "'m FrustumIntersection \<Rightarrow> TileKeyEntry \<Rightarrow> nat" where
  "keyOf fi e = getKeyForTileKeyAndOffset fi (tileKey e) (offset e)"

text \<open>Readings of a trace: the tiles queried for elevation, the candidate children with
  their offsets and areas, the entries pushed.\<close>

fun queriedTiles :: "event list \<Rightarrow> TileKey list" where
  "queriedTiles [] = []"
| "queriedTiles (GetElevationRange k # evs) = k # queriedTiles evs"
| "queriedTiles (ComputeSubTileArea k off a # evs) = queriedTiles evs"
| "queriedTiles (Push e # evs) = queriedTiles evs"

fun estimatedAreas :: "event list \<Rightarrow> ((TileKey \<times> int) \<times> real) list" where
  "estimatedAreas [] = []"
| "estimatedAreas (GetElevationRange k # evs) = estimatedAreas evs"
| "estimatedAreas (ComputeSubTileArea k off a # evs) = ((k, off), a) # estimatedAreas evs"
| "estimatedAreas (Push e # evs) = estimatedAreas evs"

definition candidateChildren :: "event list \<Rightarrow> (TileKey \<times> int) list" where
  "candidateChildren evs = map fst (estimatedAreas evs)"

text \<open>Whether the elevation range that the source reports for a tile is exact.\<close>

definition elevationPrecise :: "ElevationRangeSource \<Rightarrow> TileKey \<Rightarrow> bool" where
  "elevationPrecise src k = (calculationStatus (getElevationRange src k) = FinalPrecise)"

fun pushedEntries :: "event list \<Rightarrow> TileKeyEntry list" where
  "pushedEntries [] = []"
| "pushedEntries (GetElevationRange k # evs) = pushedEntries evs"
| "pushedEntries (ComputeSubTileArea k off a # evs) = pushedEntries evs"
| "pushedEntries (Push e # evs) = e # pushedEntries evs"

text \<open>
  The tiles a traversal can come to: the tiles of the root entries, and the children of
  every such tile that is not deeper than \<open>maxTileLevel\<close>.
\<close>

inductive_set reachable :: "TilingScheme \<Rightarrow> int \<Rightarrow> TileKeyEntry list \<Rightarrow> TileKey set"
  for tilingScheme :: TilingScheme and maxTileLevel :: int and roots :: "TileKeyEntry list" where
  reachable_root: "e \<in> set roots \<Longrightarrow> tileKey e \<in> reachable tilingScheme maxTileLevel roots"
| reachable_child:
    "p \<in> reachable tilingScheme maxTileLevel roots \<Longrightarrow> int (level p) \<le> maxTileLevel \<Longrightarrow>
     c \<in> set (getSubTileKeys tilingScheme p) \<Longrightarrow> c \<in> reachable tilingScheme maxTileLevel roots"

text \<open>The number of tiles in the subtree of depth \<open>d\<close> below a tile: the measure of the
  work left for an entry of the work list.\<close>

fun subtreeSize :: "TilingScheme \<Rightarrow> nat \<Rightarrow> TileKey \<Rightarrow> nat" where
  "subtreeSize tilingScheme 0 k = 1"
| "subtreeSize tilingScheme (Suc d) k =
     Suc (sum_list (map (subtreeSize tilingScheme d) (getSubTileKeys tilingScheme k)))"

definition workLeft :: "TilingScheme \<Rightarrow> int \<Rightarrow> TileKeyEntry \<Rightarrow> nat" where
  "workLeft tilingScheme maxTileLevel e =
     subtreeSize tilingScheme (nat (maxTileLevel + 1 - int (level (tileKey e)))) (tileKey e)"

text \<open>
  The claim about the axis-aligned branch of the area estimator speaks of the signed
  shoelace sum over the closed contour of four vertices; this is that sum, written from
  the claim's words.
\<close>

definition shoelace4 :: "Vector3 \<Rightarrow> Vector3 \<Rightarrow> Vector3 \<Rightarrow> Vector3 \<Rightarrow> real" where
  "shoelace4 a b c d =
     (vx a * vy b - vx b * vy a) + (vx b * vy c - vx c * vy b) +
     (vx c * vy d - vx d * vy c) + (vx d * vy a - vx a * vy d)"

definition groundCorner :: "'m FrustumIntersection \<Rightarrow> real \<Rightarrow> real \<Rightarrow> Vector3" where
  "groundCorner fi a b = applyMatrix4 fi (vector3 a b 0) (m_viewProjectionMatrix fi)"

text \<open>
  The claim about \<^verbatim>\<open>offsetRange\<close>, written from its words: the aspect ratio with the
  reciprocal taken below 1, the half horizontal field of view, the horizontal ground
  reach, the second longitude, and the clamped ceiling.
\<close>

definition clampedAspect :: "PerspectiveCamera \<Rightarrow> real" where
  "clampedAspect camera = (if aspect camera < 1 then 1 / aspect camera else aspect camera)"

definition halfFovHorizontal :: "PerspectiveCamera \<Rightarrow> real" where
  "halfFovHorizontal camera = degToRad (fov camera / 2 * clampedAspect camera)"

definition horizontalReach :: "'m FrustumIntersection \<Rightarrow> real" where
  "horizontalReach fi =
     tan (halfFovHorizontal (m_camera fi) + extractAttitude_pitch fi) * vz (position (m_camera fi))
     - tan (extractAttitude_pitch fi) * vz (position (m_camera fi))"

definition longitudeDelta :: "'m FrustumIntersection \<Rightarrow> Vector3 \<Rightarrow> real" where
  "longitudeDelta fi worldCenter =
     longitude (unprojectPoint (mapView_projection fi) worldCenter)
     - longitude (unprojectPoint (mapView_projection fi)
         (vector3 (vx worldCenter - horizontalReach fi) (vy worldCenter) (vz worldCenter)))"

definition offsetRange_spec :: "'m FrustumIntersection \<Rightarrow> Vector3 \<Rightarrow> int" where
  "offsetRange_spec fi worldCenter =
     max 0 (min 7 \<lceil>\<bar>longitudeDelta fi worldCenter\<bar> / 360 * sqrt 2\<rceil>)"

subsection \<open>Invariants and the loop over the children in closed form\<close>

text \<open>The invariant that ties the flag to the elevation queries of the trace.\<close>

definition flagInv :: "TilingScheme \<Rightarrow> ElevationRangeSource option \<Rightarrow> traversal \<Rightarrow> bool" where
  "flagInv ts ers s \<longleftrightarrow>
     (calculationFinal s \<longleftrightarrow>
        (\<forall>k \<in> set (queriedTiles (trace s)). \<forall>src. ers = Some src \<longrightarrow> elevationPrecise src k)) \<and>
     queriedTiles (trace s) =
       (if useElevationRangeSource ts ers then map fst (candidateChildren (trace s)) else [])"

text \<open>
  The invariant on what the map and the trace hold: an entry of the map is the copy of a
  root or the entry of a candidate child with a positive area, stored under its own key;
  the keys of the roots stay in the map; a candidate child has the offset of a root and
  a key that is not the key of a root; and the pushes and the estimated areas of the
  trace are those of the children.
\<close>

definition entriesInv ::
  "'m FrustumIntersection \<Rightarrow> TilingScheme \<Rightarrow> ElevationRangeSource option \<Rightarrow> traversal \<Rightarrow> bool" where
  "entriesInv fi ts ers s \<longleftrightarrow>
     (\<forall>k e. tileKeyEntries s k = Some e \<longrightarrow>
        (\<exists>item \<in> set (m_rootTileKeys fi). k = keyOf fi item \<and> e = rootEntry item) \<or>
        ((tileKey e, offset e) \<in> set (candidateChildren (trace s)) \<and> k = keyOf fi e \<and>
         e = childEntry fi ts ers (tileKey e) (offset e) \<and>
         childVisible fi ts ers (tileKey e) (offset e))) \<and>
     (\<forall>item \<in> set (m_rootTileKeys fi). tileKeyEntries s (keyOf fi item) \<noteq> None) \<and>
     (\<forall>(c, off) \<in> set (candidateChildren (trace s)).
        off \<in> offset ` set (m_rootTileKeys fi) \<and>
        (\<forall>item \<in> set (m_rootTileKeys fi). getKeyForTileKeyAndOffset fi c off \<noteq> keyOf fi item)) \<and>
     (\<forall>e \<in> set (workList s). offset e \<in> offset ` set (m_rootTileKeys fi)) \<and>
     (\<forall>e \<in> set (pushedEntries (trace s)).
        e = childEntry fi ts ers (tileKey e) (offset e) \<and>
        childVisible fi ts ers (tileKey e) (offset e)) \<and>
     (\<forall>((c, off), a) \<in> set (estimatedAreas (trace s)).
        a = childArea fi (childGeoBox ts ers c off))"

text \<open>
  The loop over a list of children of an entry with offset \<open>off\<close> in closed form, for
  the case that no assertion fails: the events of one child, whether the ranges of all
  the children are exact, and the state after the loop, in which the children with a
  positive area have entered the map and the work list in order.
\<close>

definition childEvents ::
  "'m FrustumIntersection \<Rightarrow> TilingScheme \<Rightarrow> ElevationRangeSource option \<Rightarrow> int \<Rightarrow>
   TileKey \<Rightarrow> event list" where
  "childEvents fi ts ers off c =
     (if useElevationRangeSource ts ers then [GetElevationRange c] else []) @
     [ComputeSubTileArea c off (childArea fi (childGeoBox ts ers c off))] @
     (if childVisible fi ts ers c off then [Push (childEntry fi ts ers c off)] else [])"

definition childrenPrecise :: "TilingScheme \<Rightarrow> ElevationRangeSource option \<Rightarrow> TileKey list \<Rightarrow> bool" where
  "childrenPrecise ts ers cs =
     (case ers of None \<Rightarrow> True
      | Some src \<Rightarrow> if useElevationRangeSource ts ers then list_all (elevationPrecise src) cs else True)"

definition afterChildren ::
  "'m FrustumIntersection \<Rightarrow> TilingScheme \<Rightarrow> ElevationRangeSource option \<Rightarrow> int \<Rightarrow>
   TileKey list \<Rightarrow> traversal \<Rightarrow> traversal" where
  "afterChildren fi ts ers off cs s =
     \<lparr>tileKeyEntries = tileKeyEntries s ++
        map_of (map (\<lambda>c. (getKeyForTileKeyAndOffset fi c off, childEntry fi ts ers c off))
                  (filter (\<lambda>c. childVisible fi ts ers c off) cs)),
      workList = workList s @
        map (\<lambda>c. childEntry fi ts ers c off) (filter (\<lambda>c. childVisible fi ts ers c off) cs),
      calculationFinal = (calculationFinal s \<and> childrenPrecise ts ers cs),
      trace = trace s @ concat (map (childEvents fi ts ers off) cs)\<rparr>"

text \<open>
  The contract of the collaborators that the traversal relies on for its assertions, over
  the tiles it can subdivide: the root entries are of level 0 and pairwise different in
  tile key and offset; a tile has distinct children, one level deeper; two tiles share
  no child; and the key codec is injective on the reachable tiles paired with the
  offsets of the roots.
\<close>

definition subdividable :: "'m FrustumIntersection \<Rightarrow> TilingScheme \<Rightarrow> int \<Rightarrow> TileKey set" where
  "subdividable fi ts mx =
     {p \<in> reachable ts mx (m_rootTileKeys fi). int (level p) \<le> mx}"

definition contract :: "'m FrustumIntersection \<Rightarrow> TilingScheme \<Rightarrow> int \<Rightarrow> bool" where
  "contract fi ts mx \<longleftrightarrow>
     (\<forall>e \<in> set (m_rootTileKeys fi). level (tileKey e) = 0) \<and>
     distinct (map (\<lambda>e. (tileKey e, offset e)) (m_rootTileKeys fi)) \<and>
     (\<forall>p \<in> subdividable fi ts mx. distinct (getSubTileKeys ts p)) \<and>
     (\<forall>p \<in> subdividable fi ts mx. \<forall>p' \<in> subdividable fi ts mx.
        p \<noteq> p' \<longrightarrow> set (getSubTileKeys ts p) \<inter> set (getSubTileKeys ts p') = {}) \<and>
     (\<forall>p \<in> subdividable fi ts mx. \<forall>c \<in> set (getSubTileKeys ts p). level c = Suc (level p)) \<and>
     inj_on (\<lambda>(k, off). getKeyForTileKeyAndOffset fi k off)
       (reachable ts mx (m_rootTileKeys fi) \<times> offset ` set (m_rootTileKeys fi))"

text \<open>
  The invariant of the loop under that contract: every entry of the map is stored under
  its own composite key and has a positive area; every entry of the work list is in the
  map; the work list holds no tile copy twice; no child of a pending tile is in the map;
  and the parent of a stored child is stored.
\<close>

definition treeInv :: "'m FrustumIntersection \<Rightarrow> TilingScheme \<Rightarrow> int \<Rightarrow> traversal \<Rightarrow> bool" where
  "treeInv fi ts mx s \<longleftrightarrow>
     (\<forall>k e. tileKeyEntries s k = Some e \<longrightarrow>
        k = keyOf fi e \<and> tileKey e \<in> reachable ts mx (m_rootTileKeys fi) \<and>
        offset e \<in> offset ` set (m_rootTileKeys fi) \<and> greaterThanZero (area e)) \<and>
     (\<forall>e \<in> set (workList s).
        tileKeyEntries s (keyOf fi e) \<noteq> None \<and> tileKey e \<in> reachable ts mx (m_rootTileKeys fi) \<and>
        offset e \<in> offset ` set (m_rootTileKeys fi)) \<and>
     distinct (map (\<lambda>e. (tileKey e, offset e)) (workList s)) \<and>
     (\<forall>e \<in> set (workList s). int (level (tileKey e)) \<le> mx \<longrightarrow>
        (\<forall>c \<in> set (getSubTileKeys ts (tileKey e)).
           tileKeyEntries s (getKeyForTileKeyAndOffset fi c (offset e)) = None)) \<and>
     (\<forall>k e. tileKeyEntries s k = Some e \<longrightarrow>
        (\<forall>p \<in> subdividable fi ts mx. tileKey e \<in> set (getSubTileKeys ts p) \<longrightarrow>
           tileKeyEntries s (getKeyForTileKeyAndOffset fi p (offset e)) \<noteq> None))"

text \<open>The work left for a state: the measure that every round of the loop decreases.\<close>

definition workTotal :: "TilingScheme \<Rightarrow> int \<Rightarrow> traversal \<Rightarrow> nat" where
  "workTotal ts mx s = sum_list (map (workLeft ts mx) (workList s))"

section \<open>A concrete setting\<close>

text \<open>
  A quadtree over the whole world in plain longitude and latitude, a flat projection that
  takes longitude, latitude and altitude as world coordinates, a view that sees what lies
  west of the zero meridian, and a key codec built from Cantor pairing.
\<close>

definition quadTree :: TilingScheme where
  "quadTree =
     \<lparr>ts_ref = 1,
      ts_getGeoBox = (\<lambda>k.
        \<lparr>southWest = \<lparr>latitude = - 90 + 180 * real (row k) / 2 ^ level k,
                       longitude = - 180 + 360 * real (column k) / 2 ^ level k,
                       altitude = 0\<rparr>,
         northEast = \<lparr>latitude = - 90 + 180 * real (Suc (row k)) / 2 ^ level k,
                       longitude = - 180 + 360 * real (Suc (column k)) / 2 ^ level k,
                       altitude = 0\<rparr>\<rparr>),
      getSubTileKeys = (\<lambda>k.
        [fromRowColumnLevel (2 * row k) (2 * column k) (Suc (level k)),
         fromRowColumnLevel (2 * row k) (2 * column k + 1) (Suc (level k)),
         fromRowColumnLevel (2 * row k + 1) (2 * column k) (Suc (level k)),
         fromRowColumnLevel (2 * row k + 1) (2 * column k + 1) (Suc (level k))])\<rparr>"

text \<open>A second tiling scheme object with the same methods.\<close>

definition otherScheme :: TilingScheme where
  "otherScheme = quadTree\<lparr>ts_ref := 2\<rparr>"

definition flatProjection :: Projection where
  "flatProjection =
     \<lparr>ptype = Planar,
      projectBox_Box3 = (\<lambda>g.
        \<lparr>box_min = vector3 (longitude (southWest g)) (latitude (southWest g))
                      (altitude (southWest g)),
         box_max = vector3 (longitude (northEast g)) (latitude (northEast g))
                      (altitude (northEast g))\<rparr>),
      projectBox_OrientedBox3 = (\<lambda>g.
        \<lparr>obb_position =
           vector3 ((longitude (southWest g) + longitude (northEast g)) / 2)
                   ((latitude (southWest g) + latitude (northEast g)) / 2) 0,
         xAxis = vector3 1 0 0, yAxis = vector3 0 1 0, zAxis = vector3 0 0 1,
         extents =
           vector3 ((longitude (northEast g) - longitude (southWest g)) / 2)
                   ((latitude (northEast g) - latitude (southWest g)) / 2) 0\<rparr>),
      unprojectPoint = (\<lambda>v. \<lparr>latitude = vy v, longitude = vx v, altitude = vz v\<rparr>)\<rparr>"

definition keyCodec :: "TileKey \<Rightarrow> int \<Rightarrow> nat" where
  "keyCodec k off =
     prod_encode (prod_encode (row k, column k), prod_encode (level k, int_encode off))"

definition rootTileKey :: TileKey where
  "rootTileKey = fromRowColumnLevel 0 0 0"

text \<open>Matrices are translations of the plane here: a matrix is the vector it adds, and
  the rotation of a box is the null translation.\<close>

definition westView :: "Vector3 FrustumIntersection" where
  "westView =
     \<lparr>m_camera = \<lparr>fov = 90, aspect = 1, position = vector3 400 0 720\<rparr>,
      mapView_projection = flatProjection,
      m_extendedFrustumCulling = False,
      m_tileWrappingEnabled = False,
      m_rootTileKeys = [newTileKeyEntry rootTileKey (Num 0) 0 0 0],
      m_viewProjectionMatrix = vector3 0 0 0,
      m_frustum_intersectsBox = (\<lambda>b. vx (box_min b) < 0),
      m_mapTileCuller_frustumIntersectsTileBox = (\<lambda>b. True),
      orientedBox_intersects = (\<lambda>b. vx (obb_position b) < 0),
      extractAttitude_pitch = 0,
      getKeyForTileKeyAndOffset = keyCodec,
      applyMatrix4 = (\<lambda>v m. vector3 (vx v + vx m) (vy v + vy m) (vz v + vz m)),
      multiply = (\<lambda>a b. vector3 (vx a + vx b) (vy a + vy b) (vz a + vz b)),
      makeTranslation = (\<lambda>a b c. vector3 a b c),
      getRotationMatrix = (\<lambda>b. vector3 0 0 0)\<rparr>"

definition wrapView :: "Vector3 FrustumIntersection" where
  "wrapView = westView\<lparr>m_tileWrappingEnabled := True\<rparr>"

definition globeView :: "Vector3 FrustumIntersection" where
  "globeView =
     westView\<lparr>mapView_projection := flatProjection\<lparr>ptype := Spherical\<rparr>,
              m_tileWrappingEnabled := True\<rparr>"

definition alwaysSubdivide :: DataSource where
  "alwaysSubdivide = \<lparr>shouldSubdivide = (\<lambda>zoomLevel k. True)\<rparr>"

text \<open>An elevation source on the quadtree whose ranges are exact in even columns only.\<close>

definition patchyElevation :: ElevationRangeSource where
  "patchyElevation =
     \<lparr>getTilingScheme = quadTree,
      getElevationRange = (\<lambda>k.
        \<lparr>range_minElevation = 0, range_maxElevation = 100,
         calculationStatus = (if even (column k) then FinalPrecise else Approximate)\<rparr>)\<rparr>"

text \<open>The children of the root tile in the quadtree.\<close>

definition levelOne :: "TileKey list" where
  "levelOne = [fromRowColumnLevel 0 0 1, fromRowColumnLevel 0 1 1,
               fromRowColumnLevel 1 0 1, fromRowColumnLevel 1 1 1]"

text \<open>The same elevation source, registered for another tiling scheme.\<close>

definition foreignElevation :: ElevationRangeSource where
  "foreignElevation = patchyElevation\<lparr>getTilingScheme := otherScheme\<rparr>"

section \<open>Auxiliary facts\<close>

declare contourLoop.simps [simp del]

lemma contourLoop_five:
  "contourLoop [a, b, c, d, e] (Suc (Suc (Suc (Suc (Suc 0))))) (Suc (Suc (Suc (Suc 0)))) 0 acc =
     acc + (vx e * vy a - vx a * vy e) + (vx a * vy b - vx b * vy a) +
     (vx b * vy c - vx c * vy b) + (vx c * vy d - vx d * vy c) + (vx d * vy e - vx e * vy d)"
  by (simp add: contourLoop.simps)

subsection \<open>Rules for the loops\<close>

lemma traverse_rule:
  assumes "traverse fi ts mx ers zs ds st = Some r" and "P st"
    and "\<And>s s'. P s \<Longrightarrow> workList s \<noteq> [] \<Longrightarrow> step fi ts mx ers zs ds s = Inr s' \<Longrightarrow> P s'"
  shows "case r of Inl e \<Rightarrow> True | Inr res \<Rightarrow> P res \<and> workList res = []"
  using assms
proof (induction fi ts mx ers zs ds st r rule: traverse.raw_induct[rotated 1, consumes 1])
  case (1 trav fi ts mx ers zs ds st r)
  note IH = "1"(1) and body = "1"(2) and P = "1"(3) and stepP = "1"(4)
  show ?case
  proof (cases "workList st = []")
    case True
    with body have "r = Inr st" by simp
    with P True show ?thesis by simp
  next
    case False
    show ?thesis
    proof (cases "step fi ts mx ers zs ds st")
      case (Inl e)
      with False body have "r = Inl e" by simp
      then show ?thesis by simp
    next
      case (Inr st')
      with False body have "trav fi ts mx ers zs ds st' = Some r" by simp
      moreover have "P st'" by (rule stepP[OF P False Inr])
      ultimately show ?thesis using stepP by (rule IH)
    qed
  qed
qed

lemma traverse_total:
  assumes "P st"
    and "\<And>s. P s \<Longrightarrow> workList s \<noteq> [] \<Longrightarrow>
           \<exists>s'. step fi ts mx ers zs ds s = Inr s' \<and> P s' \<and> m s' < (m s :: nat)"
  shows "\<exists>res. traverse fi ts mx ers zs ds st = Some (Inr res) \<and> P res \<and> workList res = []"
  using assms(1)
proof (induction "m st" arbitrary: st rule: less_induct)
  case less
  show ?case
  proof (cases "workList st = []")
    case True
    with less(2) show ?thesis by (subst traverse.simps) simp
  next
    case False
    from assms(2)[OF less(2) False] obtain s' where
      s': "step fi ts mx ers zs ds st = Inr s'" "P s'" "m s' < m st" by blast
    from less(1)[OF s'(3) s'(2)] obtain res where
      "traverse fi ts mx ers zs ds s' = Some (Inr res)" "P res" "workList res = []" by blast
    with False s'(1) show ?thesis by (subst traverse.simps) simp
  qed
qed

lemma visitChildren_rule:
  "visitChildren fi ts ers e cs st = Inr st' \<Longrightarrow> P st \<Longrightarrow>
   (\<And>c s s'. c \<in> set cs \<Longrightarrow> P s \<Longrightarrow> visitChild fi ts ers e c s = Inr s' \<Longrightarrow> P s') \<Longrightarrow> P st'"
proof (induction cs arbitrary: st)
  case Nil
  then show ?case by simp
next
  case (Cons c cs)
  from Cons.prems(1) obtain s1 where s1: "visitChild fi ts ers e c st = Inr s1"
    "visitChildren fi ts ers e cs s1 = Inr st'"
    by (auto split: sum.splits)
  have "P s1" using Cons.prems(2,3) s1(1) by (meson list.set_intros(1))
  show ?case
  proof (rule Cons.IH[OF s1(2) \<open>P s1\<close>])
    fix c' s s' assume "c' \<in> set cs" "P s" "visitChild fi ts ers e c' s = Inr s'"
    then show "P s'" using Cons.prems(3)[of c' s s'] by simp
  qed
qed

lemma visitChild_Inr_iff:
  "(\<exists>s'. visitChild fi ts ers e c s = Inr s') \<longleftrightarrow> tileKeyEntries s (getKeyForTileKeyAndOffset fi c (offset e)) = None"
  by (auto simp: visitChild_def Let_def split: option.splits)

lemma visitChild_fields:
  assumes "visitChild fi ts ers e c s = Inr s'"
  shows "tileKeyEntries s (getKeyForTileKeyAndOffset fi c (offset e)) = None"
    and "tileKeyEntries s' =
           (if childVisible fi ts ers c (offset e)
            then (tileKeyEntries s)(getKeyForTileKeyAndOffset fi c (offset e) \<mapsto> childEntry fi ts ers c (offset e))
            else tileKeyEntries s)"
    and "workList s' =
           workList s @ (if childVisible fi ts ers c (offset e) then [childEntry fi ts ers c (offset e)] else [])"
    and "calculationFinal s' =
           (calculationFinal s \<and>
            (case ers of None \<Rightarrow> True
             | Some src \<Rightarrow> if useElevationRangeSource ts ers
                 then calculationStatus (getElevationRange src c) = FinalPrecise else True))"
    and "trace s' =
           trace s @ (if useElevationRangeSource ts ers then [GetElevationRange c] else [])
             @ [ComputeSubTileArea c (offset e) (childArea fi (childGeoBox ts ers c (offset e)))]
             @ (if childVisible fi ts ers c (offset e) then [Push (childEntry fi ts ers c (offset e))] else [])"
  using assms
  by (auto simp: visitChild_def Let_def childVisible_def childEntry_def useElevationRangeSource_def
           split: option.splits if_splits)

lemma step_cases:
  assumes "step fi ts mx ers zs ds s = Inr s'"
  obtains (skip) "s' = s\<lparr>workList := butlast (workList s)\<rparr>"
      "int (level (tileKey (last (workList s)))) > mx \<or>
       \<not> someShouldSubdivide ds zs 0 (tileKey (last (workList s)))"
  | (descend) cached where
      "int (level (tileKey (last (workList s)))) \<le> mx"
      "someShouldSubdivide ds zs 0 (tileKey (last (workList s)))"
      "tileKeyEntries s (keyOf fi (last (workList s))) = Some cached"
      "greaterThanZero (area cached)"
      "visitChildren fi ts ers (last (workList s)) (getSubTileKeys ts (tileKey (last (workList s))))
         (s\<lparr>workList := butlast (workList s)\<rparr>) = Inr s'"
  using assms
  by (auto simp: step_def Let_def keyOf_def split: if_splits option.splits)

lemma step_rule:
  assumes "step fi ts mx ers zs ds s = Inr s'"
    and "Q (s\<lparr>workList := butlast (workList s)\<rparr>)"
    and "\<And>c t t'. c \<in> set (getSubTileKeys ts (tileKey (last (workList s)))) \<Longrightarrow> Q t \<Longrightarrow>
           visitChild fi ts ers (last (workList s)) c t = Inr t' \<Longrightarrow> Q t'"
  shows "Q s'"
  using assms(1)
proof (cases rule: step_cases)
  case skip
  with assms(2) show ?thesis by simp
next
  case (descend cached)
  from descend(5) assms(2) show ?thesis
    by (rule visitChildren_rule) (rule assms(3))
qed

lemma compute_rule:
  assumes "compute fi ts mx ers zs ds = Some (Inr res)"
    and "P (initialTraversal fi)"
    and "\<And>s. P s \<Longrightarrow> workList s \<noteq> [] \<Longrightarrow> Q (last (workList s)) (s\<lparr>workList := butlast (workList s)\<rparr>)"
    and "\<And>e c t t'. Q e t \<Longrightarrow> visitChild fi ts ers e c t = Inr t' \<Longrightarrow> Q e t'"
    and "\<And>e t. Q e t \<Longrightarrow> P t"
  shows "P res \<and> workList res = []"
proof -
  have t: "traverse fi ts mx ers zs ds (initialTraversal fi) = Some (Inr res)"
    using assms(1) by (simp add: compute_def)
  have stepP: "P s'" if P: "P s" and ne: "workList s \<noteq> []"
    and st: "step fi ts mx ers zs ds s = Inr s'" for s s'
  proof -
    have "Q (last (workList s)) s'"
      using st
    proof (rule step_rule)
      show "Q (last (workList s)) (s\<lparr>workList := butlast (workList s)\<rparr>)" by (rule assms(3)[OF P ne])
    next
      fix c t t' assume "Q (last (workList s)) t" "visitChild fi ts ers (last (workList s)) c t = Inr t'"
      then show "Q (last (workList s)) t'" by (rule assms(4))
    qed
    then show "P s'" by (rule assms(5))
  qed
  from traverse_rule[where P = P, OF t assms(2) stepP] show ?thesis by simp
qed

subsection \<open>Traces, entries and the initial map\<close>

lemma queriedTiles_append [simp]: "queriedTiles (xs @ ys) = queriedTiles xs @ queriedTiles ys"
  by (induction xs rule: queriedTiles.induct) simp_all

lemma estimatedAreas_append [simp]: "estimatedAreas (xs @ ys) = estimatedAreas xs @ estimatedAreas ys"
  by (induction xs rule: estimatedAreas.induct) simp_all

lemma pushedEntries_append [simp]: "pushedEntries (xs @ ys) = pushedEntries xs @ pushedEntries ys"
  by (induction xs rule: pushedEntries.induct) simp_all

lemma candidateChildren_append [simp]:
  "candidateChildren (xs @ ys) = candidateChildren xs @ candidateChildren ys"
  by (simp add: candidateChildren_def)

lemma childEntry_sel [simp]:
  "tileKey (childEntry fi ts ers c off) = c" "offset (childEntry fi ts ers c off) = off"
  "area (childEntry fi ts ers c off) = Num (childArea fi (childGeoBox ts ers c off))"
  by (simp_all add: childEntry_def newTileKeyEntry_def)

lemma rootEntry_sel [simp]:
  "tileKey (rootEntry item) = tileKey item" "offset (rootEntry item) = offset item"
  "area (rootEntry item) = Infinity" "minElevation (rootEntry item) = minElevation item"
  "maxElevation (rootEntry item) = maxElevation item"
  by (simp_all add: rootEntry_def newTileKeyEntry_def)

lemma fold_insertRoot_Some:
  "fold (insertRoot fi) rs m k = Some e \<Longrightarrow>
   m k = Some e \<or> (\<exists>item \<in> set rs. k = keyOf fi item \<and> e = rootEntry item)"
proof (induction rs arbitrary: m)
  case Nil
  then show ?case by simp
next
  case (Cons r rs)
  from Cons.IH[OF Cons.prems[simplified]] show ?case
    by (auto simp: insertRoot_def keyOf_def rootEntry_def split: if_splits)
qed

lemma fold_insertRoot_keep:
  "m k \<noteq> None \<Longrightarrow> fold (insertRoot fi) rs m k \<noteq> None"
  by (induction rs arbitrary: m) (auto simp: insertRoot_def)

lemma fold_insertRoot_dom:
  "item \<in> set rs \<Longrightarrow> fold (insertRoot fi) rs m (keyOf fi item) \<noteq> None"
proof (induction rs arbitrary: m)
  case Nil
  then show ?case by simp
next
  case (Cons r rs)
  show ?case
  proof (cases "item = r")
    case True
    have "insertRoot fi r m (keyOf fi item) \<noteq> None"
      using True by (simp add: insertRoot_def keyOf_def)
    then show ?thesis by (simp add: fold_insertRoot_keep)
  next
    case False
    with Cons show ?thesis by simp
  qed
qed

subsection \<open>The invariants of a returned result\<close>

lemma flagInv_compute:
  assumes "compute fi ts mx ers zs ds = Some (Inr res)"
  shows "flagInv ts ers res"
proof -
  have "flagInv ts ers res \<and> workList res = []"
    using assms
  proof (rule compute_rule[where Q = "\<lambda>e. flagInv ts ers"])
    show "flagInv ts ers (initialTraversal fi)"
      by (simp add: flagInv_def initialTraversal_def candidateChildren_def)
  next
    fix s assume "flagInv ts ers s"
    then show "flagInv ts ers (s\<lparr>workList := butlast (workList s)\<rparr>)"
      by (simp add: flagInv_def)
  next
    fix e c t t' assume inv: "flagInv ts ers t" and vc: "visitChild fi ts ers e c t = Inr t'"
    note f = visitChild_fields[OF vc]
    show "flagInv ts ers t'"
      using inv unfolding flagInv_def f(4) f(5)
      by (auto simp: candidateChildren_def useElevationRangeSource_def elevationPrecise_def
               split: option.splits)
  qed simp
  then show ?thesis by simp
qed

lemma entriesInv_initial: "entriesInv fi ts ers (initialTraversal fi)"
  unfolding entriesInv_def initialTraversal_def
  by (auto simp: candidateChildren_def fold_insertRoot_dom dest!: fold_insertRoot_Some)

lemma entriesInv_pop:
  "entriesInv fi ts ers s \<Longrightarrow> entriesInv fi ts ers (s\<lparr>workList := butlast (workList s)\<rparr>)"
  unfolding entriesInv_def by (auto dest: in_set_butlastD)

lemma entriesInv_visitChild:
  assumes inv: "entriesInv fi ts ers t" and off: "offset e \<in> offset ` set (m_rootTileKeys fi)"
    and vc: "visitChild fi ts ers e c t = Inr t'"
  shows "entriesInv fi ts ers t'"
proof -
  note f = visitChild_fields[OF vc]
  have cand: "candidateChildren (trace t') = candidateChildren (trace t) @ [(c, offset e)]"
    unfolding f(5) by (simp add: candidateChildren_def)
  have est: "estimatedAreas (trace t') =
      estimatedAreas (trace t) @ [((c, offset e), childArea fi (childGeoBox ts ers c (offset e)))]"
    unfolding f(5) by simp
  have push: "pushedEntries (trace t') = pushedEntries (trace t) @
      (if childVisible fi ts ers c (offset e) then [childEntry fi ts ers c (offset e)] else [])"
    unfolding f(5) by simp
  have notroot: "\<forall>item \<in> set (m_rootTileKeys fi). getKeyForTileKeyAndOffset fi c (offset e) \<noteq> keyOf fi item"
    using inv f(1) unfolding entriesInv_def by metis
  show ?thesis
    unfolding entriesInv_def
  proof (intro conjI)
    show "\<forall>k e'. tileKeyEntries t' k = Some e' \<longrightarrow>
        (\<exists>item \<in> set (m_rootTileKeys fi). k = keyOf fi item \<and> e' = rootEntry item) \<or>
        ((tileKey e', offset e') \<in> set (candidateChildren (trace t')) \<and> k = keyOf fi e' \<and>
         e' = childEntry fi ts ers (tileKey e') (offset e') \<and>
         childVisible fi ts ers (tileKey e') (offset e'))"
      using inv unfolding entriesInv_def f(2) cand
      by (auto simp: keyOf_def split: if_splits)
    show "\<forall>item \<in> set (m_rootTileKeys fi). tileKeyEntries t' (keyOf fi item) \<noteq> None"
      using inv unfolding entriesInv_def f(2) by auto
    show "\<forall>(c, off) \<in> set (candidateChildren (trace t')).
        off \<in> offset ` set (m_rootTileKeys fi) \<and>
        (\<forall>item \<in> set (m_rootTileKeys fi). getKeyForTileKeyAndOffset fi c off \<noteq> keyOf fi item)"
      using inv off notroot unfolding entriesInv_def cand by auto
    show "\<forall>e \<in> set (workList t'). offset e \<in> offset ` set (m_rootTileKeys fi)"
      using inv off unfolding entriesInv_def f(3) by auto
    show "\<forall>e \<in> set (pushedEntries (trace t')).
        e = childEntry fi ts ers (tileKey e) (offset e) \<and>
        childVisible fi ts ers (tileKey e) (offset e)"
      using inv unfolding entriesInv_def push by auto
    show "\<forall>((c, off), a) \<in> set (estimatedAreas (trace t')).
        a = childArea fi (childGeoBox ts ers c off)"
      using inv unfolding entriesInv_def est by auto
  qed
qed

lemma entriesInv_compute:
  assumes "compute fi ts mx ers zs ds = Some (Inr res)"
  shows "entriesInv fi ts ers res"
proof -
  have "entriesInv fi ts ers res \<and> workList res = []"
    using assms
  proof (rule compute_rule[where
        Q = "\<lambda>e s. entriesInv fi ts ers s \<and> offset e \<in> offset ` set (m_rootTileKeys fi)"])
    show "entriesInv fi ts ers (initialTraversal fi)" by (rule entriesInv_initial)
  next
    fix s assume inv: "entriesInv fi ts ers s" and ne: "workList s \<noteq> []"
    from ne have "last (workList s) \<in> set (workList s)" by simp
    with inv have "offset (last (workList s)) \<in> offset ` set (m_rootTileKeys fi)"
      unfolding entriesInv_def by blast
    with inv show "entriesInv fi ts ers (s\<lparr>workList := butlast (workList s)\<rparr>) \<and>
        offset (last (workList s)) \<in> offset ` set (m_rootTileKeys fi)"
      by (simp add: entriesInv_pop)
  next
    fix e c t t'
    assume "entriesInv fi ts ers t \<and> offset e \<in> offset ` set (m_rootTileKeys fi)"
      and "visitChild fi ts ers e c t = Inr t'"
    then show "entriesInv fi ts ers t' \<and> offset e \<in> offset ` set (m_rootTileKeys fi)"
      using entriesInv_visitChild[of fi ts ers t e c t'] by blast
  qed simp
  then show ?thesis by simp
qed

subsection \<open>The area of an axis-aligned box\<close>

lemma computeSubTileArea_box:
  "computeSubTileArea fi (AxisAligned box) =
     (if (if m_extendedFrustumCulling fi
          then m_mapTileCuller_frustumIntersectsTileBox fi box else True)
         \<and> m_frustum_intersectsBox fi box
      then \<bar>shoelace4
              (groundCorner fi (vx (box_min box)) (vy (box_min box)))
              (groundCorner fi (vx (box_max box)) (vy (box_min box)))
              (groundCorner fi (vx (box_max box)) (vy (box_max box)))
              (groundCorner fi (vx (box_min box)) (vy (box_max box)))\<bar> / 2
      else 0)"
  by (simp add: computeSubTileArea_def Let_def contourLoop_five shoelace4_def groundCorner_def)

subsection \<open>The loop over the children in closed form\<close>

lemma visitChild_closed:
  assumes "tileKeyEntries s (getKeyForTileKeyAndOffset fi c (offset e)) = None"
  shows "visitChild fi ts ers e c s = Inr (afterChildren fi ts ers (offset e) [c] s)"
proof -
  from assms obtain s' where vc: "visitChild fi ts ers e c s = Inr s'"
    using visitChild_Inr_iff by blast
  note f = visitChild_fields[OF vc]
  have "s' = afterChildren fi ts ers (offset e) [c] s"
    by (rule traversal.equality)
       (simp_all add: f(2-5) afterChildren_def childEvents_def childrenPrecise_def elevationPrecise_def
          split: option.splits)
  with vc show ?thesis by simp
qed

lemma afterChildren_Cons:
  assumes "getKeyForTileKeyAndOffset fi c off \<notin> (\<lambda>c. getKeyForTileKeyAndOffset fi c off) ` set cs"
  shows "afterChildren fi ts ers off cs (afterChildren fi ts ers off [c] s) =
         afterChildren fi ts ers off (c # cs) s"
proof -
  have nd: "getKeyForTileKeyAndOffset fi c off \<notin>
      dom (map_of (map (\<lambda>c. (getKeyForTileKeyAndOffset fi c off, childEntry fi ts ers c off))
                  (filter (\<lambda>c. childVisible fi ts ers c off) cs)))"
    using assms by (auto simp: dom_map_of_conv_image_fst)
  show ?thesis
    by (rule traversal.equality)
       (auto simp: afterChildren_def map_add_upd_left[OF nd] childrenPrecise_def split: option.splits)
qed

lemma visitChildren_closed:
  assumes "distinct (map (\<lambda>c. getKeyForTileKeyAndOffset fi c (offset e)) cs)"
    and "\<forall>c \<in> set cs. tileKeyEntries s (getKeyForTileKeyAndOffset fi c (offset e)) = None"
  shows "visitChildren fi ts ers e cs s = Inr (afterChildren fi ts ers (offset e) cs s)"
  using assms
proof (induction cs arbitrary: s)
  case Nil
  have "afterChildren fi ts ers (offset e) [] s = s"
    by (rule traversal.equality) (simp_all add: afterChildren_def childrenPrecise_def split: option.splits)
  then show ?case by simp
next
  case (Cons c cs)
  let ?s1 = "afterChildren fi ts ers (offset e) [c] s"
  have vc: "visitChild fi ts ers e c s = Inr ?s1"
    using Cons.prems(2) by (simp add: visitChild_closed)
  have fresh: "getKeyForTileKeyAndOffset fi c (offset e) \<notin>
      (\<lambda>c. getKeyForTileKeyAndOffset fi c (offset e)) ` set cs"
    using Cons.prems(1) by simp
  have "\<forall>c' \<in> set cs. tileKeyEntries ?s1 (getKeyForTileKeyAndOffset fi c' (offset e)) = None"
    using Cons.prems(2) fresh by (auto simp: afterChildren_def image_iff)
  with Cons.IH[of ?s1] Cons.prems(1)
  have "visitChildren fi ts ers e cs ?s1 = Inr (afterChildren fi ts ers (offset e) cs ?s1)"
    by simp
  with vc show ?case by (simp add: afterChildren_Cons[OF fresh])
qed

lemma traverse_drain:
  assumes "\<forall>e \<in> set (workList s). int (level (tileKey e)) > mx"
  shows "traverse fi ts mx ers zs ds s = Some (Inr (s\<lparr>workList := []\<rparr>))"
  using assms
proof (induction "length (workList s)" arbitrary: s)
  case 0
  then have "workList s = []" by simp
  then show ?case by (subst traverse.simps) simp
next
  case (Suc n)
  then have ne: "workList s \<noteq> []" by auto
  let ?s1 = "s\<lparr>workList := butlast (workList s)\<rparr>"
  from ne Suc.prems have "int (level (tileKey (last (workList s)))) > mx" by simp
  then have st: "step fi ts mx ers zs ds s = Inr ?s1"
    by (simp add: step_def Let_def)
  have "traverse fi ts mx ers zs ds ?s1 = Some (Inr (?s1\<lparr>workList := []\<rparr>))"
  proof (rule Suc.hyps(1))
    show "n = length (workList ?s1)" using Suc.hyps(2) by simp
    show "\<forall>e \<in> set (workList ?s1). int (level (tileKey e)) > mx"
      using Suc.prems by (auto dest: in_set_butlastD)
  qed
  with ne st show ?case by (subst traverse.simps) simp
qed

lemma compute_single_root:
  assumes roots: "m_rootTileKeys fi = [r]"
    and votes: "someShouldSubdivide ds zs 0 (tileKey r)"
    and lvl: "int (level (tileKey r)) \<le> mx"
    and deep: "\<forall>c \<in> set (getSubTileKeys ts (tileKey r)). int (level c) > mx"
    and keys: "distinct (map (\<lambda>c. getKeyForTileKeyAndOffset fi c (offset r))
                 (tileKey r # getSubTileKeys ts (tileKey r)))"
  shows "compute fi ts mx ers zs ds =
     Some (Inr ((afterChildren fi ts ers (offset r) (getSubTileKeys ts (tileKey r))
        \<lparr>tileKeyEntries = [keyOf fi r \<mapsto> rootEntry r], workList = [],
         calculationFinal = True, trace = []\<rparr>)\<lparr>workList := []\<rparr>))"
proof -
  let ?s0 = "\<lparr>tileKeyEntries = [keyOf fi r \<mapsto> rootEntry r], workList = [r],
              calculationFinal = True, trace = []\<rparr>"
  let ?s1 = "\<lparr>tileKeyEntries = [keyOf fi r \<mapsto> rootEntry r], workList = [],
              calculationFinal = True, trace = []\<rparr>"
  let ?s2 = "afterChildren fi ts ers (offset r) (getSubTileKeys ts (tileKey r)) ?s1"
  have init: "initialTraversal fi = ?s0"
    by (simp add: initialTraversal_def roots insertRoot_def keyOf_def rootEntry_def)
  have "visitChildren fi ts ers r (getSubTileKeys ts (tileKey r)) ?s1 = Inr ?s2"
  proof (rule visitChildren_closed)
    show "distinct (map (\<lambda>c. getKeyForTileKeyAndOffset fi c (offset r)) (getSubTileKeys ts (tileKey r)))"
      using keys by simp
    show "\<forall>c \<in> set (getSubTileKeys ts (tileKey r)).
        tileKeyEntries ?s1 (getKeyForTileKeyAndOffset fi c (offset r)) = None"
      using keys by (auto simp: keyOf_def image_iff)
  qed
  then have st: "step fi ts mx ers zs ds ?s0 = Inr ?s2"
    using votes lvl by (simp add: step_def Let_def keyOf_def)
  have "\<forall>e \<in> set (workList ?s2). int (level (tileKey e)) > mx"
    using deep by (auto simp: afterChildren_def)
  then have "traverse fi ts mx ers zs ds ?s2 = Some (Inr (?s2\<lparr>workList := []\<rparr>))"
    by (rule traverse_drain)
  with st have "traverse fi ts mx ers zs ds ?s0 = Some (Inr (?s2\<lparr>workList := []\<rparr>))"
    by (subst traverse.simps) simp
  then show ?thesis by (simp add: compute_def init)
qed

lemma step_calculationFinal_mono:
  assumes "step fi ts mx ers zs ds s = Inr s'" and "calculationFinal s'"
  shows "calculationFinal s"
proof -
  have "calculationFinal s' \<longrightarrow> calculationFinal s"
    using assms(1)
  proof (rule step_rule)
    show "calculationFinal (s\<lparr>workList := butlast (workList s)\<rparr>) \<longrightarrow> calculationFinal s" by simp
  next
    fix c t t' assume "calculationFinal t \<longrightarrow> calculationFinal s"
      and "visitChild fi ts ers (last (workList s)) c t = Inr t'"
    then show "calculationFinal t' \<longrightarrow> calculationFinal s"
      using visitChild_fields(4)[of fi ts ers "last (workList s)" c t t'] by simp
  qed
  with assms(2) show ?thesis by simp
qed

lemma entriesInv_entry:
  "entriesInv fi ts ers s \<Longrightarrow> tileKeyEntries s k = Some e \<Longrightarrow>
   (\<exists>item \<in> set (m_rootTileKeys fi). k = keyOf fi item \<and> e = rootEntry item) \<or>
   ((tileKey e, offset e) \<in> set (candidateChildren (trace s)) \<and> k = keyOf fi e \<and>
    e = childEntry fi ts ers (tileKey e) (offset e) \<and>
    childVisible fi ts ers (tileKey e) (offset e))"
  unfolding entriesInv_def by blast

lemma entriesInv_candidate:
  "entriesInv fi ts ers s \<Longrightarrow> (c, off) \<in> set (candidateChildren (trace s)) \<Longrightarrow>
   off \<in> offset ` set (m_rootTileKeys fi) \<and>
   (\<forall>item \<in> set (m_rootTileKeys fi). getKeyForTileKeyAndOffset fi c off \<noteq> keyOf fi item)"
  unfolding entriesInv_def by fast

lemma entriesInv_pushed:
  "entriesInv fi ts ers s \<Longrightarrow> e \<in> set (pushedEntries (trace s)) \<Longrightarrow>
   e = childEntry fi ts ers (tileKey e) (offset e) \<and> childVisible fi ts ers (tileKey e) (offset e)"
  unfolding entriesInv_def by blast

lemma entriesInv_area:
  "entriesInv fi ts ers s \<Longrightarrow> ((c, off), a) \<in> set (estimatedAreas (trace s)) \<Longrightarrow>
   a = childArea fi (childGeoBox ts ers c off)"
  unfolding entriesInv_def by fast

lemma visitChild_mismatch:
  assumes "ts_ref (getTilingScheme src) \<noteq> ts_ref ts"
  shows "visitChild fi ts (Some src) = visitChild fi ts None"
  using assms
  by (intro ext) (simp add: visitChild_def childGeoBox_def useElevationRangeSource_def Let_def)

lemma visitChildren_mismatch:
  assumes "ts_ref (getTilingScheme src) \<noteq> ts_ref ts"
  shows "visitChildren fi ts (Some src) = visitChildren fi ts None"
proof (intro ext)
  fix e cs s
  show "visitChildren fi ts (Some src) e cs s = visitChildren fi ts None e cs s"
    by (induction cs arbitrary: s)
       (simp_all add: visitChild_mismatch[OF assms] split: sum.splits)
qed

lemma step_mismatch:
  assumes "ts_ref (getTilingScheme src) \<noteq> ts_ref ts"
  shows "step fi ts mx (Some src) zs ds s = step fi ts mx None zs ds s"
  unfolding step_def visitChildren_mismatch[OF assms] by (rule refl)

lemma traverse_step_cong:
  assumes "traverse fi ts mx ers zs ds st = Some r"
    and "\<And>s. step fi ts mx ers zs ds s = step fi ts mx ers' zs ds s"
  shows "traverse fi ts mx ers' zs ds st = Some r"
  using assms
proof (induction fi ts mx ers zs ds st r rule: traverse.raw_induct[rotated 1, consumes 1])
  case (1 trav fi ts mx ers zs ds st r)
  note IH = "1"(1) and body = "1"(2) and eq = "1"(3)
  show ?case
  proof (cases "workList st = []")
    case True
    with body show ?thesis by (subst traverse.simps) simp
  next
    case False
    show ?thesis
    proof (cases "step fi ts mx ers zs ds st")
      case (Inl e)
      then have s': "step fi ts mx ers' zs ds st = Inl e" using eq[of st] by simp
      from False body Inl have "r = Inl e" by simp
      with False s' show ?thesis by (subst traverse.simps) simp
    next
      case (Inr st')
      then have s': "step fi ts mx ers' zs ds st = Inr st'" using eq[of st] by simp
      from False body Inr have "trav fi ts mx ers zs ds st' = Some r" by simp
      then have "traverse fi ts mx ers' zs ds st' = Some r" using eq by (rule IH)
      with False s' show ?thesis by (subst traverse.simps) simp
    qed
  qed
qed

lemma traverse_mismatch:
  assumes "ts_ref (getTilingScheme src) \<noteq> ts_ref ts"
  shows "traverse fi ts mx (Some src) zs ds st = traverse fi ts mx None zs ds st"
proof (cases "traverse fi ts mx (Some src) zs ds st")
  case None
  show ?thesis
  proof (cases "traverse fi ts mx None zs ds st")
    case (Some r)
    then have "traverse fi ts mx (Some src) zs ds st = Some r"
      by (rule traverse_step_cong) (simp add: step_mismatch[OF assms])
    with None show ?thesis by simp
  qed (simp add: None)
next
  case (Some r)
  then have "traverse fi ts mx None zs ds st = Some r"
    by (rule traverse_step_cong) (simp add: step_mismatch[OF assms])
  with Some show ?thesis by simp
qed

lemma childEntry_no_source:
  assumes "\<not> useElevationRangeSource ts ers"
  shows "minElevation (childEntry fi ts ers c off) = altitude (southWest (ts_getGeoBox ts c))"
    and "maxElevation (childEntry fi ts ers c off) = altitude (northEast (ts_getGeoBox ts c))"
  using assms
  by (auto simp: childEntry_def newTileKeyEntry_def childGeoBox_def getGeoBox_def Let_def
        split: option.splits)

lemma roots_single:
  assumes "ptype (mapView_projection fi) \<noteq> Planar \<or> \<not> m_tileWrappingEnabled fi"
  shows "computeRequiredInitialRootTileKeys fi worldCenter = [newTileKeyEntry rootTileKey (Num 0) 0 0 0]"
  using assms by (auto simp: computeRequiredInitialRootTileKeys_def rootTileKey_def)

lemma afterChildren_other:
  assumes "k \<notin> (\<lambda>c. getKeyForTileKeyAndOffset fi c off) ` set cs"
  shows "tileKeyEntries (afterChildren fi ts ers off cs s) k = tileKeyEntries s k"
proof -
  have "k \<notin> dom (map_of (map (\<lambda>c. (getKeyForTileKeyAndOffset fi c off, childEntry fi ts ers c off))
                  (filter (\<lambda>c. childVisible fi ts ers c off) cs)))"
    using assms by (auto simp: dom_map_of_conv_image_fst)
  then show ?thesis by (simp add: afterChildren_def map_add_dom_app_simps)
qed

lemma map_of_children:
  assumes "distinct (map f cs)" and "c \<in> set cs"
  shows "map_of (map (\<lambda>c. (f c, g c)) (filter P cs)) (f c) = (if P c then Some (g c) else None)"
  using assms
proof (induction cs)
  case Nil
  then show ?case by simp
next
  case (Cons a cs)
  show ?case
  proof (cases "c = a")
    case True
    have "f a \<notin> fst ` set (map (\<lambda>c. (f c, g c)) (filter P cs))"
      using Cons.prems(1) by (auto simp: image_iff)
    then have "map_of (map (\<lambda>c. (f c, g c)) (filter P cs)) (f a) = None"
      by (simp add: map_of_eq_None_iff)
    with True show ?thesis by simp
  next
    case False
    with Cons.prems have "c \<in> set cs" "f c \<noteq> f a" "distinct (map f cs)" by (auto simp: image_iff)
    with Cons.IH show ?thesis by simp
  qed
qed

lemma afterChildren_lookup:
  assumes "distinct (map (\<lambda>c. getKeyForTileKeyAndOffset fi c off) cs)" and "c \<in> set cs"
  shows "tileKeyEntries (afterChildren fi ts ers off cs s) (getKeyForTileKeyAndOffset fi c off) =
     (if childVisible fi ts ers c off then Some (childEntry fi ts ers c off)
      else tileKeyEntries s (getKeyForTileKeyAndOffset fi c off))"
  using map_of_children[OF assms, of "\<lambda>c. childEntry fi ts ers c off" "\<lambda>c. childVisible fi ts ers c off"]
  by (simp add: afterChildren_def map_add_def)

lemma afterChildren_dom:
  "dom (tileKeyEntries (afterChildren fi ts ers off cs s)) =
     dom (tileKeyEntries s) \<union>
     (\<lambda>c. getKeyForTileKeyAndOffset fi c off) ` set (filter (\<lambda>c. childVisible fi ts ers c off) cs)"
  by (auto simp: afterChildren_def dom_map_of_conv_image_fst image_iff)

subsection \<open>The loop under the contract of the collaborators\<close>

lemma contract_key_eq:
  assumes "contract fi ts mx"
    and "k \<in> reachable ts mx (m_rootTileKeys fi)" "off \<in> offset ` set (m_rootTileKeys fi)"
    and "k' \<in> reachable ts mx (m_rootTileKeys fi)" "off' \<in> offset ` set (m_rootTileKeys fi)"
    and "getKeyForTileKeyAndOffset fi k off = getKeyForTileKeyAndOffset fi k' off'"
  shows "k = k' \<and> off = off'"
proof -
  from assms(1) have "inj_on (\<lambda>(k, off). getKeyForTileKeyAndOffset fi k off)
       (reachable ts mx (m_rootTileKeys fi) \<times> offset ` set (m_rootTileKeys fi))"
    by (simp add: contract_def)
  from inj_onD[OF this, of "(k, off)" "(k', off')"] assms(2-) show ?thesis by simp
qed

lemma contract_child:
  assumes "contract fi ts mx" "p \<in> subdividable fi ts mx" "c \<in> set (getSubTileKeys ts p)"
  shows "level c = Suc (level p)" "c \<in> reachable ts mx (m_rootTileKeys fi)"
proof -
  show "level c = Suc (level p)" using assms by (simp add: contract_def)
  from assms(2) have "p \<in> reachable ts mx (m_rootTileKeys fi)" "int (level p) \<le> mx"
    by (simp_all add: subdividable_def)
  then show "c \<in> reachable ts mx (m_rootTileKeys fi)" using assms(3) by (rule reachable_child)
qed

lemma contract_parent:
  assumes "contract fi ts mx" "p \<in> subdividable fi ts mx" "p' \<in> subdividable fi ts mx"
    and "c \<in> set (getSubTileKeys ts p)" "c \<in> set (getSubTileKeys ts p')"
  shows "p = p'"
proof (rule ccontr)
  assume "p \<noteq> p'"
  with assms(1-3) have "set (getSubTileKeys ts p) \<inter> set (getSubTileKeys ts p') = {}"
    by (simp add: contract_def)
  with assms(4,5) show False by blast
qed

lemma contract_children_keys:
  assumes c: "contract fi ts mx" and p: "p \<in> subdividable fi ts mx"
    and off: "off \<in> offset ` set (m_rootTileKeys fi)"
  shows "distinct (map (\<lambda>c. getKeyForTileKeyAndOffset fi c off) (getSubTileKeys ts p))"
proof -
  have d: "distinct (getSubTileKeys ts p)" using c p by (simp add: contract_def)
  have "inj_on (\<lambda>c. getKeyForTileKeyAndOffset fi c off) (set (getSubTileKeys ts p))"
  proof (rule inj_onI)
    fix x y assume "x \<in> set (getSubTileKeys ts p)" "y \<in> set (getSubTileKeys ts p)"
      and "getKeyForTileKeyAndOffset fi x off = getKeyForTileKeyAndOffset fi y off"
    with contract_key_eq[OF c contract_child(2)[OF c p] off contract_child(2)[OF c p] off]
    show "x = y" by blast
  qed
  with d show ?thesis by (simp add: distinct_map)
qed

lemma treeInv_entry:
  assumes "treeInv fi ts mx s" "tileKeyEntries s k = Some e"
  shows "k = keyOf fi e" "tileKey e \<in> reachable ts mx (m_rootTileKeys fi)"
    "offset e \<in> offset ` set (m_rootTileKeys fi)" "greaterThanZero (area e)"
  using assms unfolding treeInv_def by blast+

lemma treeInv_work:
  assumes "treeInv fi ts mx s" "e \<in> set (workList s)"
  shows "tileKeyEntries s (keyOf fi e) \<noteq> None" "tileKey e \<in> reachable ts mx (m_rootTileKeys fi)"
    "offset e \<in> offset ` set (m_rootTileKeys fi)"
  using assms unfolding treeInv_def by blast+

lemma treeInv_distinct:
  assumes "treeInv fi ts mx s"
  shows "distinct (map (\<lambda>e. (tileKey e, offset e)) (workList s))"
  using assms unfolding treeInv_def by blast

lemma treeInv_children:
  assumes "treeInv fi ts mx s" "e \<in> set (workList s)" "int (level (tileKey e)) \<le> mx"
    "c \<in> set (getSubTileKeys ts (tileKey e))"
  shows "tileKeyEntries s (getKeyForTileKeyAndOffset fi c (offset e)) = None"
  using assms unfolding treeInv_def by blast

lemma treeInv_parent:
  assumes "treeInv fi ts mx s" "tileKeyEntries s k = Some e" "p \<in> subdividable fi ts mx"
    "tileKey e \<in> set (getSubTileKeys ts p)"
  shows "tileKeyEntries s (getKeyForTileKeyAndOffset fi p (offset e)) \<noteq> None"
  using assms unfolding treeInv_def by blast

lemma distinct_map_butlast:
  "distinct (map f xs) \<Longrightarrow> distinct (map f (butlast xs))"
  using distinct_butlast[of "map f xs"] by (simp add: map_butlast)

lemma treeInv_initial:
  assumes c: "contract fi ts mx"
  shows "treeInv fi ts mx (initialTraversal fi)"
proof -
  let ?M = "fold (insertRoot fi) (m_rootTileKeys fi) Map.empty"
  let ?s = "initialTraversal fi"
  have M: "tileKeyEntries ?s = ?M" and W: "workList ?s = m_rootTileKeys fi"
    by (simp_all add: initialTraversal_def)
  have root: "\<exists>item \<in> set (m_rootTileKeys fi). k = keyOf fi item \<and> e = rootEntry item"
    if "?M k = Some e" for k e
    using fold_insertRoot_Some[OF that] by simp
  have lvl0: "level (tileKey item) = 0" if "item \<in> set (m_rootTileKeys fi)" for item
    using c that by (simp add: contract_def)
  have notchild: "tileKey item \<notin> set (getSubTileKeys ts p)"
    if "item \<in> set (m_rootTileKeys fi)" "p \<in> subdividable fi ts mx" for item p
    using contract_child(1)[OF c that(2)] lvl0[OF that(1)] by fastforce
  have a: "\<forall>k e. tileKeyEntries ?s k = Some e \<longrightarrow>
        k = keyOf fi e \<and> tileKey e \<in> reachable ts mx (m_rootTileKeys fi) \<and>
        offset e \<in> offset ` set (m_rootTileKeys fi) \<and> greaterThanZero (area e)"
  proof (intro allI impI)
    fix k e assume "tileKeyEntries ?s k = Some e"
    from root[OF this[unfolded M]] obtain item where
      "item \<in> set (m_rootTileKeys fi)" "k = keyOf fi item" "e = rootEntry item"
      by blast
    then show "k = keyOf fi e \<and> tileKey e \<in> reachable ts mx (m_rootTileKeys fi) \<and>
        offset e \<in> offset ` set (m_rootTileKeys fi) \<and> greaterThanZero (area e)"
      by (auto simp: keyOf_def intro: reachable_root)
  qed
  have b: "\<forall>e \<in> set (workList ?s).
        tileKeyEntries ?s (keyOf fi e) \<noteq> None \<and> tileKey e \<in> reachable ts mx (m_rootTileKeys fi) \<and>
        offset e \<in> offset ` set (m_rootTileKeys fi)"
    unfolding M W using fold_insertRoot_dom[of _ "m_rootTileKeys fi" fi Map.empty]
    by (auto intro: reachable_root)
  have d: "distinct (map (\<lambda>e. (tileKey e, offset e)) (workList ?s))"
    unfolding W using c by (simp add: contract_def)
  have e: "\<forall>e \<in> set (workList ?s). int (level (tileKey e)) \<le> mx \<longrightarrow>
        (\<forall>c \<in> set (getSubTileKeys ts (tileKey e)).
           tileKeyEntries ?s (getKeyForTileKeyAndOffset fi c (offset e)) = None)"
  proof (intro ballI impI)
    fix e ch assume e: "e \<in> set (workList ?s)" and l: "int (level (tileKey e)) \<le> mx"
      and ch: "ch \<in> set (getSubTileKeys ts (tileKey e))"
    from e have e': "e \<in> set (m_rootTileKeys fi)" by (simp add: W)
    have p: "tileKey e \<in> subdividable fi ts mx"
      using e' l by (auto simp: subdividable_def intro: reachable_root)
    show "tileKeyEntries ?s (getKeyForTileKeyAndOffset fi ch (offset e)) = None"
    proof (rule ccontr)
      assume "tileKeyEntries ?s (getKeyForTileKeyAndOffset fi ch (offset e)) \<noteq> None"
      then obtain e'' where "?M (getKeyForTileKeyAndOffset fi ch (offset e)) = Some e''"
        unfolding M by blast
      from root[OF this] obtain item where item: "item \<in> set (m_rootTileKeys fi)"
        "getKeyForTileKeyAndOffset fi ch (offset e) = keyOf fi item" by blast
      have "ch = tileKey item \<and> offset e = offset item"
      proof (rule contract_key_eq[OF c])
        show "ch \<in> reachable ts mx (m_rootTileKeys fi)" by (rule contract_child(2)[OF c p ch])
        show "offset e \<in> offset ` set (m_rootTileKeys fi)" using e' by simp
        show "tileKey item \<in> reachable ts mx (m_rootTileKeys fi)"
          using item(1) by (rule reachable_root)
        show "offset item \<in> offset ` set (m_rootTileKeys fi)" using item(1) by simp
        show "getKeyForTileKeyAndOffset fi ch (offset e) =
            getKeyForTileKeyAndOffset fi (tileKey item) (offset item)"
          using item(2) by (simp add: keyOf_def)
      qed
      with notchild[OF item(1) p] ch show False by simp
    qed
  qed
  have f: "\<forall>k e. tileKeyEntries ?s k = Some e \<longrightarrow>
        (\<forall>p \<in> subdividable fi ts mx. tileKey e \<in> set (getSubTileKeys ts p) \<longrightarrow>
           tileKeyEntries ?s (getKeyForTileKeyAndOffset fi p (offset e)) \<noteq> None)"
  proof (intro allI impI ballI)
    fix k e p assume "tileKeyEntries ?s k = Some e" and p: "p \<in> subdividable fi ts mx"
      and ch: "tileKey e \<in> set (getSubTileKeys ts p)"
    from root[OF this(1)[unfolded M]] obtain item where
      "item \<in> set (m_rootTileKeys fi)" "e = rootEntry item"
      by blast
    with notchild[OF this(1) p] ch
    show "tileKeyEntries ?s (getKeyForTileKeyAndOffset fi p (offset e)) \<noteq> None" by simp
  qed
  show ?thesis
    unfolding treeInv_def by (intro conjI a b d e f)
qed

lemma treeInv_pop:
  assumes "treeInv fi ts mx s"
  shows "treeInv fi ts mx (s\<lparr>workList := butlast (workList s)\<rparr>)"
  using assms unfolding treeInv_def
  by (auto dest: in_set_butlastD simp: distinct_map_butlast)

lemma afterChildren_entry:
  assumes "tileKeyEntries (afterChildren fi ts ers off cs s) k = Some e'"
  shows "tileKeyEntries s k = Some e' \<or>
     (\<exists>c \<in> set cs. childVisible fi ts ers c off \<and> k = getKeyForTileKeyAndOffset fi c off \<and>
        e' = childEntry fi ts ers c off)"
  using assms by (auto simp: afterChildren_def map_add_Some_iff dest!: map_of_SomeD)

lemma afterChildren_keeps:
  assumes "tileKeyEntries s k \<noteq> None"
  shows "tileKeyEntries (afterChildren fi ts ers off cs s) k \<noteq> None"
  using assms afterChildren_dom[of fi ts ers off cs s] by (metis UnI1 domIff)

lemma afterChildren_None:
  assumes "tileKeyEntries s k = None"
    and "k \<notin> (\<lambda>c. getKeyForTileKeyAndOffset fi c off) ` set cs"
  shows "tileKeyEntries (afterChildren fi ts ers off cs s) k = None"
  using assms by (simp add: afterChildren_other)

lemma afterChildren_workList:
  "workList (afterChildren fi ts ers off cs s) =
     workList s @ map (\<lambda>c. childEntry fi ts ers c off) (filter (\<lambda>c. childVisible fi ts ers c off) cs)"
  by (simp add: afterChildren_def)

lemma subtreeSize_pos: "0 < subtreeSize ts d k"
  by (cases d) simp_all

lemma workLeft_pos: "0 < workLeft ts mx e"
  by (simp add: workLeft_def subtreeSize_pos)

lemma workTotal_pop:
  assumes "workList s \<noteq> []"
  shows "workTotal ts mx (s\<lparr>workList := butlast (workList s)\<rparr>) + workLeft ts mx (last (workList s)) =
         workTotal ts mx s"
proof -
  from assms have "workList s = butlast (workList s) @ [last (workList s)]" by simp
  then have "sum_list (map (workLeft ts mx) (workList s)) =
      sum_list (map (workLeft ts mx) (butlast (workList s))) + workLeft ts mx (last (workList s))"
    by (metis (no_types) map_append sum_list_append list.simps(8,9) sum_list.Cons sum_list.Nil add_0_right)
  then show ?thesis by (simp add: workTotal_def)
qed

lemma workLeft_children:
  assumes c: "contract fi ts mx" and p: "tileKey e \<in> subdividable fi ts mx"
  shows "sum_list (map (workLeft ts mx)
           (map (\<lambda>c. childEntry fi ts ers c off)
              (filter (\<lambda>c. childVisible fi ts ers c off) (getSubTileKeys ts (tileKey e))))) <
         workLeft ts mx e"
proof -
  let ?p = "tileKey e"
  let ?d = "nat (mx - int (level ?p))"
  from p have l: "int (level ?p) \<le> mx" by (simp add: subdividable_def)
  then have d: "nat (mx + 1 - int (level ?p)) = Suc ?d" by simp
  have child: "workLeft ts mx (childEntry fi ts ers ch off) = subtreeSize ts ?d ch"
    if "ch \<in> set (getSubTileKeys ts ?p)" for ch
    using contract_child(1)[OF c p that] by (simp add: workLeft_def)
  have eq: "map (workLeft ts mx) (map (\<lambda>c. childEntry fi ts ers c off)
           (filter (\<lambda>c. childVisible fi ts ers c off) (getSubTileKeys ts ?p))) =
        map (subtreeSize ts ?d) (filter (\<lambda>c. childVisible fi ts ers c off) (getSubTileKeys ts ?p))"
    using child by simp
  have "sum_list (map (subtreeSize ts ?d)
        (filter (\<lambda>c. childVisible fi ts ers c off) (getSubTileKeys ts ?p))) \<le>
      sum_list (map (subtreeSize ts ?d) (getSubTileKeys ts ?p))"
    by (rule sum_list_filter_le_nat)
  moreover have "workLeft ts mx e = Suc (sum_list (map (subtreeSize ts ?d) (getSubTileKeys ts ?p)))"
    by (simp add: workLeft_def d)
  ultimately show ?thesis unfolding eq by simp
qed

lemma last_not_in_butlast:
  assumes "distinct (map f xs)" "xs \<noteq> []" "x \<in> set (butlast xs)"
  shows "f x \<noteq> f (last xs)"
proof -
  from assms(2) have "map f xs = map f (butlast xs) @ [f (last xs)]"
    by (metis append_butlast_last_id list.simps(8,9) map_append)
  with assms(1) have "f (last xs) \<notin> f ` set (butlast xs)"
    by (metis distinct_append distinct.simps(2) disjoint_iff list.set_intros(1) list.set_map)
  with assms(3) show ?thesis by (metis imageI)
qed

lemma treeInv_descend:
  assumes c: "contract fi ts mx" and inv: "treeInv fi ts mx s" and ne: "workList s \<noteq> []"
    and lvl: "int (level (tileKey (last (workList s)))) \<le> mx"
  shows "visitChildren fi ts ers (last (workList s)) (getSubTileKeys ts (tileKey (last (workList s))))
           (s\<lparr>workList := butlast (workList s)\<rparr>) =
         Inr (afterChildren fi ts ers (offset (last (workList s)))
                (getSubTileKeys ts (tileKey (last (workList s)))) (s\<lparr>workList := butlast (workList s)\<rparr>))"
    and "treeInv fi ts mx
           (afterChildren fi ts ers (offset (last (workList s)))
              (getSubTileKeys ts (tileKey (last (workList s)))) (s\<lparr>workList := butlast (workList s)\<rparr>))"
proof -
  define e where "e = last (workList s)"
  define off where "off = offset e"
  define p where "p = tileKey e"
  define cs where "cs = getSubTileKeys ts p"
  define s1 where "s1 = s\<lparr>workList := butlast (workList s)\<rparr>"
  define s2 where "s2 = afterChildren fi ts ers off cs s1"
  let ?R = "reachable ts mx (m_rootTileKeys fi)"
  let ?O = "offset ` set (m_rootTileKeys fi)"
  let ?key = "getKeyForTileKeyAndOffset fi"
  let ?vis = "\<lambda>c. childVisible fi ts ers c off"
  let ?entry = "\<lambda>c. childEntry fi ts ers c off"
  have e_in: "e \<in> set (workList s)" using ne by (simp add: e_def)
  have M1: "tileKeyEntries s1 = tileKeyEntries s" and W1: "workList s1 = butlast (workList s)"
    by (simp_all add: s1_def)
  have pR: "p \<in> ?R" and offO: "off \<in> ?O" and eM: "tileKeyEntries s (keyOf fi e) \<noteq> None"
    using treeInv_work[OF inv e_in] by (simp_all add: p_def off_def)
  have psub: "p \<in> subdividable fi ts mx"
    using pR lvl by (simp add: subdividable_def p_def e_def)
  have csR: "ch \<in> ?R" and csL: "level ch = Suc (level p)" if "ch \<in> set cs" for ch
    using contract_child[OF c psub] that by (simp_all add: cs_def)
  have none: "tileKeyEntries s (?key ch off) = None" if "ch \<in> set cs" for ch
    using treeInv_children[OF inv e_in] lvl that by (simp add: cs_def p_def off_def e_def)
  have dist: "distinct (map (\<lambda>c. ?key c off) cs)"
    unfolding cs_def by (rule contract_children_keys[OF c psub offO])
  then have dcs: "distinct cs" by (simp add: distinct_map)
  have keyeq: "k = k' \<and> o1 = o2"
    if "k \<in> ?R" "o1 \<in> ?O" "k' \<in> ?R" "o2 \<in> ?O" "?key k o1 = ?key k' o2" for k k' o1 o2
    using contract_key_eq[OF c that] .
  have visit: "visitChildren fi ts ers e cs s1 = Inr s2"
    unfolding s2_def off_def
  proof (rule visitChildren_closed)
    show "distinct (map (\<lambda>c. ?key c (offset e)) cs)" using dist by (simp add: off_def)
    show "\<forall>ch \<in> set cs. tileKeyEntries s1 (?key ch (offset e)) = None"
      using none by (simp add: M1 off_def)
  qed
  have W2: "workList s2 = butlast (workList s) @ map ?entry (filter ?vis cs)"
    by (simp add: s2_def afterChildren_workList W1)
  have entry2: "tileKeyEntries s k = Some e' \<or>
      (\<exists>ch \<in> set cs. ?vis ch \<and> k = ?key ch off \<and> e' = ?entry ch)"
    if "tileKeyEntries s2 k = Some e'" for k e'
    using afterChildren_entry[OF that[unfolded s2_def]] by (simp add: M1)
  have keeps: "tileKeyEntries s2 k \<noteq> None" if "tileKeyEntries s k \<noteq> None" for k
    unfolding s2_def using that by (intro afterChildren_keeps) (simp add: M1)
  have new: "tileKeyEntries s2 (?key ch off) = Some (?entry ch)" if "ch \<in> set cs" "?vis ch" for ch
    unfolding s2_def using afterChildren_lookup[OF dist that(1), of ts ers s1] that(2) by simp
  have stays_none: "tileKeyEntries s2 k = None"
    if "tileKeyEntries s k = None" "k \<notin> (\<lambda>c. ?key c off) ` set cs" for k
    unfolding s2_def using that by (intro afterChildren_None) (simp_all add: M1)
  have a: "\<forall>k e'. tileKeyEntries s2 k = Some e' \<longrightarrow>
        k = keyOf fi e' \<and> tileKey e' \<in> ?R \<and> offset e' \<in> ?O \<and> greaterThanZero (area e')"
  proof (intro allI impI)
    fix k e' assume "tileKeyEntries s2 k = Some e'"
    from entry2[OF this] show "k = keyOf fi e' \<and> tileKey e' \<in> ?R \<and> offset e' \<in> ?O \<and>
        greaterThanZero (area e')"
    proof
      assume "tileKeyEntries s k = Some e'"
      from treeInv_entry[OF inv this] show ?thesis by simp
    next
      assume "\<exists>ch \<in> set cs. ?vis ch \<and> k = ?key ch off \<and> e' = ?entry ch"
      then obtain ch where "ch \<in> set cs" "?vis ch" "k = ?key ch off" "e' = ?entry ch" by blast
      then show ?thesis using csR offO by (simp add: keyOf_def childVisible_def)
    qed
  qed
  have b: "\<forall>e' \<in> set (workList s2).
        tileKeyEntries s2 (keyOf fi e') \<noteq> None \<and> tileKey e' \<in> ?R \<and> offset e' \<in> ?O"
  proof
    fix e' assume "e' \<in> set (workList s2)"
    then consider "e' \<in> set (butlast (workList s))"
      | ch where "ch \<in> set cs" "?vis ch" "e' = ?entry ch"
      unfolding W2 by auto
    then show "tileKeyEntries s2 (keyOf fi e') \<noteq> None \<and> tileKey e' \<in> ?R \<and> offset e' \<in> ?O"
    proof cases
      case 1
      then have "e' \<in> set (workList s)" by (rule in_set_butlastD)
      from treeInv_work[OF inv this] keeps show ?thesis by simp
    next
      case 2
      with new[OF 2(1,2)] csR offO show ?thesis by (simp add: keyOf_def)
    qed
  qed
  have d: "distinct (map (\<lambda>e. (tileKey e, offset e)) (workList s2))"
  proof -
    have d1: "distinct (map (\<lambda>e. (tileKey e, offset e)) (butlast (workList s)))"
      using treeInv_distinct[OF inv] by (rule distinct_map_butlast)
    have m2: "map (\<lambda>e. (tileKey e, offset e)) (map ?entry (filter ?vis cs)) =
        map (\<lambda>ch. (ch, off)) (filter ?vis cs)"
      by simp
    have d2: "distinct (map (\<lambda>ch. (ch, off)) (filter ?vis cs))"
      using dcs by (simp add: distinct_map inj_on_def)
    have disj: "(tileKey e', offset e') \<noteq> (ch, off)"
      if "e' \<in> set (butlast (workList s))" "ch \<in> set cs" for e' ch
    proof
      assume eq: "(tileKey e', offset e') = (ch, off)"
      from that(1) have "e' \<in> set (workList s)" by (rule in_set_butlastD)
      from treeInv_work(1)[OF inv this] eq have "tileKeyEntries s (?key ch off) \<noteq> None"
        by (simp add: keyOf_def)
      with none[OF that(2)] show False by simp
    qed
    have "set (map (\<lambda>e. (tileKey e, offset e)) (butlast (workList s))) \<inter>
        set (map (\<lambda>ch. (ch, off)) (filter ?vis cs)) = {}"
      using disj by auto
    with d1 d2 show ?thesis unfolding W2 map_append m2 by simp
  qed
  have e: "\<forall>e' \<in> set (workList s2). int (level (tileKey e')) \<le> mx \<longrightarrow>
        (\<forall>c' \<in> set (getSubTileKeys ts (tileKey e')).
           tileKeyEntries s2 (?key c' (offset e')) = None)"
  proof (intro ballI impI)
    fix e' c' assume e': "e' \<in> set (workList s2)" and l': "int (level (tileKey e')) \<le> mx"
      and c': "c' \<in> set (getSubTileKeys ts (tileKey e'))"
    from b e' have e'R: "tileKey e' \<in> ?R" and e'O: "offset e' \<in> ?O" by blast+
    from e'R l' have e'sub: "tileKey e' \<in> subdividable fi ts mx" by (simp add: subdividable_def)
    have c'R: "c' \<in> ?R" by (rule contract_child(2)[OF c e'sub c'])
    from e' consider "e' \<in> set (butlast (workList s))"
      | ch where "ch \<in> set cs" "?vis ch" "e' = ?entry ch"
      unfolding W2 by auto
    then show "tileKeyEntries s2 (?key c' (offset e')) = None"
    proof cases
      case 1
      then have in_s: "e' \<in> set (workList s)" by (rule in_set_butlastD)
      have old: "tileKeyEntries s (?key c' (offset e')) = None"
        by (rule treeInv_children[OF inv in_s l' c'])
      have "?key c' (offset e') \<notin> (\<lambda>c. ?key c off) ` set cs"
      proof
        assume "?key c' (offset e') \<in> (\<lambda>c. ?key c off) ` set cs"
        then obtain ch where ch: "ch \<in> set cs" "?key c' (offset e') = ?key ch off" by blast
        from keyeq[OF c'R e'O csR[OF ch(1)] offO ch(2)] have eq: "c' = ch" "offset e' = off" by simp_all
        from contract_parent[OF c e'sub psub c'] ch(1) eq have "tileKey e' = p"
          by (simp add: cs_def)
        with eq have "(tileKey e', offset e') = (tileKey (last (workList s)), offset (last (workList s)))"
          by (simp add: p_def off_def e_def)
        with last_not_in_butlast[OF treeInv_distinct[OF inv] ne 1] show False by simp
      qed
      with old show ?thesis by (rule stays_none)
    next
      case 2
      then have te: "tileKey e' = ch" "offset e' = off" by simp_all
      have chsub: "ch \<in> subdividable fi ts mx" using e'sub te by simp
      have notnew: "?key c' off \<notin> (\<lambda>c. ?key c off) ` set cs"
      proof
        assume "?key c' off \<in> (\<lambda>c. ?key c off) ` set cs"
        then obtain c2 where c2: "c2 \<in> set cs" "?key c' off = ?key c2 off" by blast
        from keyeq[OF c'R offO csR[OF c2(1)] offO c2(2)] have "c' = c2" by simp
        with c2(1) have "c' \<in> set (getSubTileKeys ts p)" by (simp add: cs_def)
        from contract_parent[OF c chsub psub _ this] c' te have "ch = p" by simp
        with csL[OF 2(1)] show False by simp
      qed
      have old: "tileKeyEntries s (?key c' off) = None"
      proof (rule ccontr)
        assume "tileKeyEntries s (?key c' off) \<noteq> None"
        then obtain e'' where e'': "tileKeyEntries s (?key c' off) = Some e''" by blast
        note t = treeInv_entry[OF inv e'']
        from keyeq[OF c'R offO t(2) t(3) t(1)[unfolded keyOf_def]]
        have eq: "tileKey e'' = c'" "offset e'' = off" by simp_all
        from treeInv_parent[OF inv e'' chsub] c' te eq
        have "tileKeyEntries s (?key ch off) \<noteq> None" by simp
        with none[OF 2(1)] show False by simp
      qed
      from stays_none[OF old notnew] te show ?thesis by simp
    qed
  qed
  have f: "\<forall>k e'. tileKeyEntries s2 k = Some e' \<longrightarrow>
        (\<forall>q \<in> subdividable fi ts mx. tileKey e' \<in> set (getSubTileKeys ts q) \<longrightarrow>
           tileKeyEntries s2 (?key q (offset e')) \<noteq> None)"
  proof (intro allI impI ballI)
    fix k e' q assume h: "tileKeyEntries s2 k = Some e'" and q: "q \<in> subdividable fi ts mx"
      and ch: "tileKey e' \<in> set (getSubTileKeys ts q)"
    from entry2[OF h] show "tileKeyEntries s2 (?key q (offset e')) \<noteq> None"
    proof
      assume "tileKeyEntries s k = Some e'"
      from treeInv_parent[OF inv this q ch] show ?thesis by (rule keeps)
    next
      assume "\<exists>ch \<in> set cs. ?vis ch \<and> k = ?key ch off \<and> e' = ?entry ch"
      then obtain c2 where c2: "c2 \<in> set cs" "e' = ?entry c2" by blast
      then have "tileKey e' \<in> set (getSubTileKeys ts p)" "offset e' = off" by (simp_all add: cs_def)
      from contract_parent[OF c q psub ch this(1)] this(2) have "?key q (offset e') = keyOf fi e"
        by (simp add: keyOf_def p_def off_def)
      with eM show ?thesis by (simp add: keeps)
    qed
  qed
  have inv2: "treeInv fi ts mx s2"
    unfolding treeInv_def by (intro conjI a b d e f)
  from visit show "visitChildren fi ts ers (last (workList s)) (getSubTileKeys ts (tileKey (last (workList s))))
           (s\<lparr>workList := butlast (workList s)\<rparr>) =
         Inr (afterChildren fi ts ers (offset (last (workList s)))
                (getSubTileKeys ts (tileKey (last (workList s)))) (s\<lparr>workList := butlast (workList s)\<rparr>))"
    by (simp add: s2_def s1_def cs_def p_def off_def e_def)
  from inv2 show "treeInv fi ts mx
           (afterChildren fi ts ers (offset (last (workList s)))
              (getSubTileKeys ts (tileKey (last (workList s)))) (s\<lparr>workList := butlast (workList s)\<rparr>))"
    by (simp add: s2_def s1_def cs_def p_def off_def e_def)
qed

lemma compute_contract_total:
  assumes c: "contract fi ts mx"
  shows "\<exists>res. compute fi ts mx ers zs ds = Some (Inr res) \<and> treeInv fi ts mx res \<and> workList res = []"
  unfolding compute_def
proof (rule traverse_total[where P = "treeInv fi ts mx" and m = "workTotal ts mx"])
  show "treeInv fi ts mx (initialTraversal fi)" by (rule treeInv_initial[OF c])
next
  fix s assume inv: "treeInv fi ts mx s" and ne: "workList s \<noteq> []"
  let ?e = "last (workList s)"
  let ?s1 = "s\<lparr>workList := butlast (workList s)\<rparr>"
  have e_in: "?e \<in> set (workList s)" using ne by simp
  have pop: "workTotal ts mx ?s1 < workTotal ts mx s"
    using workTotal_pop[OF ne, of ts mx] workLeft_pos[of ts mx ?e] by linarith
  show "\<exists>s'. step fi ts mx ers zs ds s = Inr s' \<and> treeInv fi ts mx s' \<and>
      workTotal ts mx s' < workTotal ts mx s"
  proof (cases "int (level (tileKey ?e)) > mx \<or> \<not> someShouldSubdivide ds zs 0 (tileKey ?e)")
    case True
    then have "step fi ts mx ers zs ds s = Inr ?s1"
      by (auto simp: step_def Let_def)
    with treeInv_pop[OF inv] pop show ?thesis by blast
  next
    case False
    then have lvl: "int (level (tileKey ?e)) \<le> mx"
      and votes: "someShouldSubdivide ds zs 0 (tileKey ?e)" by simp_all
    let ?cs = "getSubTileKeys ts (tileKey ?e)"
    let ?s2 = "afterChildren fi ts ers (offset ?e) ?cs ?s1"
    note desc = treeInv_descend[OF c inv ne lvl, of ers]
    from treeInv_work(1)[OF inv e_in] obtain cached where
      cached: "tileKeyEntries s (keyOf fi ?e) = Some cached" by blast
    from treeInv_entry(4)[OF inv cached] have pos: "greaterThanZero (area cached)" .
    have st: "step fi ts mx ers zs ds s = Inr ?s2"
      using lvl votes cached pos desc(1)
      by (simp add: step_def Let_def keyOf_def)
    have psub: "tileKey ?e \<in> subdividable fi ts mx"
      using treeInv_work(2)[OF inv e_in] lvl by (simp add: subdividable_def)
    have "workTotal ts mx ?s2 =
        workTotal ts mx ?s1 + sum_list (map (workLeft ts mx)
           (map (\<lambda>c. childEntry fi ts ers c (offset ?e))
              (filter (\<lambda>c. childVisible fi ts ers c (offset ?e)) ?cs)))"
      by (simp add: workTotal_def afterChildren_workList)
    also have "\<dots> < workTotal ts mx ?s1 + workLeft ts mx ?e"
      using workLeft_children[OF c psub, of ers "offset ?e"] by simp
    also have "\<dots> = workTotal ts mx s" by (rule workTotal_pop[OF ne])
    finally have "workTotal ts mx ?s2 < workTotal ts mx s" .
    with st desc(2) show ?thesis by blast
  qed
qed

lemma selector_roots:
  "\<forall>e \<in> set (computeRequiredInitialRootTileKeys fi worldCenter). level (tileKey e) = 0"
  "distinct (map (\<lambda>e. (tileKey e, offset e)) (computeRequiredInitialRootTileKeys fi worldCenter))"
proof -
  show "\<forall>e \<in> set (computeRequiredInitialRootTileKeys fi worldCenter). level (tileKey e) = 0"
    by (auto simp: computeRequiredInitialRootTileKeys_def newTileKeyEntry_def fromRowColumnLevel_def Let_def)
  have "map (\<lambda>e. (tileKey e, offset e)) (map (\<lambda>off. newTileKeyEntry k a off mn mx) xs) =
      map (\<lambda>off. (k, off)) xs" for k a mn mx and xs :: "int list"
    by (simp add: newTileKeyEntry_def)
  then show "distinct (map (\<lambda>e. (tileKey e, offset e)) (computeRequiredInitialRootTileKeys fi worldCenter))"
    by (simp add: computeRequiredInitialRootTileKeys_def Let_def distinct_map inj_on_def)
       (simp add: newTileKeyEntry_def)
qed

section \<open>Facts of the concrete setting\<close>

lemma keyCodec_eq [simp]: "keyCodec k off = keyCodec k' off' \<longleftrightarrow> k = k' \<and> off = off'"
  by (auto simp: keyCodec_def int_encode_eq)

lemmas setting_defs = westView_def quadTree_def flatProjection_def alwaysSubdivide_def
  patchyElevation_def rootTileKey_def fromRowColumnLevel_def vector3_def newTileKeyEntry_def

lemma westView_area:
  "childArea westView (childGeoBox quadTree ers (fromRowColumnLevel r c (Suc 0)) 0) =
     (if c = 0 then 16200 else 0)"
  by (cases ers)
     (simp_all add: childArea_def childGeoBox_def getGeoBox_def computeSubTileArea_box shoelace4_def
        groundCorner_def setting_defs Let_def add_divide_distrib)

lemma sqrt2_bounds: "1 < sqrt 2" "sqrt 2 \<le> 3 / 2"
proof -
  show "1 < sqrt 2" by simp
  show "sqrt 2 \<le> 3 / 2"
    by (rule real_le_lsqrt) (simp_all add: power2_eq_square)
qed

lemma ceiling_2_sqrt2: "\<lceil>2 * sqrt 2\<rceil> = 3"
  using sqrt2_bounds by (intro ceiling_unique) auto

lemma wrapView_offsetRange: "offsetRange wrapView (position (m_camera wrapView)) = 3"
  by (simp add: offsetRange_def wrapView_def westView_def flatProjection_def vector3_def
        degToRad_def clamp_def Let_def tan_45 ceiling_2_sqrt2)

lemma wrapView_startOffset: "startOffset wrapView (position (m_camera wrapView)) = 1"
  by (simp add: startOffset_def wrapView_def westView_def flatProjection_def vector3_def round_def)

lemma quadTree_root_children: "getSubTileKeys quadTree rootTileKey = levelOne"
  by (simp add: quadTree_def rootTileKey_def fromRowColumnLevel_def levelOne_def)

lemma westView_visible:
  "childVisible westView quadTree ers (fromRowColumnLevel r c (Suc 0)) 0 \<longleftrightarrow> c = 0"
  using westView_area[of ers r c] by (simp add: childVisible_def)

lemma westView_queries:
  "queriedTiles (trace (afterChildren westView quadTree (Some patchyElevation) 0 levelOne s)) =
     queriedTiles (trace s) @ levelOne"
  by (simp add: afterChildren_def childEvents_def levelOne_def useElevationRangeSource_def
        patchyElevation_def)

lemma westView_estimated:
  "estimatedAreas (trace (afterChildren westView quadTree ers 0 levelOne s)) =
     estimatedAreas (trace s) @
     [((fromRowColumnLevel 0 0 1, 0), 16200), ((fromRowColumnLevel 0 1 1, 0), 0),
      ((fromRowColumnLevel 1 0 1, 0), 16200), ((fromRowColumnLevel 1 1 1, 0), 0)]"
  by (simp add: afterChildren_def childEvents_def levelOne_def westView_area)

lemma keyCodec_inj_on: "inj_on (\<lambda>(c, off). keyCodec c off) A"
  by (auto simp: inj_on_def)

lemma quadTree_run:
  assumes roots: "m_rootTileKeys fi = [newTileKeyEntry rootTileKey (Num 0) 0 0 0]"
    and codec: "getKeyForTileKeyAndOffset fi = keyCodec"
  shows "compute fi quadTree 0 ers [0] [alwaysSubdivide] =
     Some (Inr ((afterChildren fi quadTree ers 0 levelOne
        \<lparr>tileKeyEntries = [keyCodec rootTileKey 0 \<mapsto> newTileKeyEntry rootTileKey Infinity 0 0 0],
         workList = [], calculationFinal = True, trace = []\<rparr>)\<lparr>workList := []\<rparr>))"
proof -
  let ?r = "newTileKeyEntry rootTileKey (Num 0) 0 0 0"
  have "compute fi quadTree 0 ers [0] [alwaysSubdivide] =
     Some (Inr ((afterChildren fi quadTree ers (offset ?r) (getSubTileKeys quadTree (tileKey ?r))
        \<lparr>tileKeyEntries = [keyOf fi ?r \<mapsto> rootEntry ?r], workList = [],
         calculationFinal = True, trace = []\<rparr>)\<lparr>workList := []\<rparr>))"
  proof (rule compute_single_root)
    show "m_rootTileKeys fi = [?r]" by (rule roots)
    show "someShouldSubdivide [alwaysSubdivide] [0] 0 (tileKey ?r)"
      by (simp add: alwaysSubdivide_def)
    show "int (level (tileKey ?r)) \<le> 0"
      by (simp add: newTileKeyEntry_def rootTileKey_def fromRowColumnLevel_def)
    show "\<forall>c \<in> set (getSubTileKeys quadTree (tileKey ?r)). int (level c) > 0"
      by (simp add: newTileKeyEntry_def quadTree_root_children levelOne_def fromRowColumnLevel_def)
    show "distinct (map (\<lambda>c. getKeyForTileKeyAndOffset fi c (offset ?r))
                 (tileKey ?r # getSubTileKeys quadTree (tileKey ?r)))"
      using quadTree_root_children
      by (simp add: newTileKeyEntry_def levelOne_def codec
            rootTileKey_def fromRowColumnLevel_def)
  qed
  moreover have "tileKey ?r = rootTileKey" "offset ?r = 0" "keyOf fi ?r = keyCodec rootTileKey 0"
    "rootEntry ?r = newTileKeyEntry rootTileKey Infinity 0 0 0"
    by (simp_all add: newTileKeyEntry_def keyOf_def codec rootEntry_def)
  ultimately show ?thesis by (simp add: quadTree_root_children)
qed

lemma levelOne_keys:
  "distinct (map (\<lambda>c. keyCodec c 0) levelOne)"
  "keyCodec rootTileKey 0 \<notin> (\<lambda>c. keyCodec c 0) ` set levelOne"
  by (simp_all add: levelOne_def rootTileKey_def fromRowColumnLevel_def)

lemma westView_codec: "getKeyForTileKeyAndOffset westView = keyCodec"
  by (simp add: westView_def)

lemma westView_roots: "m_rootTileKeys westView = [newTileKeyEntry rootTileKey (Num 0) 0 0 0]"
  by (simp add: westView_def)

lemma westView_run:
  "compute westView quadTree 0 ers [0] [alwaysSubdivide] =
     Some (Inr ((afterChildren westView quadTree ers 0 levelOne
        \<lparr>tileKeyEntries = [keyCodec rootTileKey 0 \<mapsto> newTileKeyEntry rootTileKey Infinity 0 0 0],
         workList = [], calculationFinal = True, trace = []\<rparr>)\<lparr>workList := []\<rparr>))"
  using westView_roots westView_codec by (rule quadTree_run)

lemma westView_dom:
  "dom (tileKeyEntries (afterChildren westView quadTree ers 0 levelOne s)) =
     dom (tileKeyEntries s) \<union>
     {keyCodec (fromRowColumnLevel 0 0 1) 0, keyCodec (fromRowColumnLevel 1 0 1) 0}"
  by (auto simp: afterChildren_dom levelOne_def westView_visible westView_codec)

lemma westView_trace:
  "trace (afterChildren westView quadTree (Some patchyElevation) 0 levelOne s) =
     trace s @
     [GetElevationRange (fromRowColumnLevel 0 0 1),
      ComputeSubTileArea (fromRowColumnLevel 0 0 1) 0 16200,
      Push (childEntry westView quadTree (Some patchyElevation) (fromRowColumnLevel 0 0 1) 0),
      GetElevationRange (fromRowColumnLevel 0 1 1),
      ComputeSubTileArea (fromRowColumnLevel 0 1 1) 0 0,
      GetElevationRange (fromRowColumnLevel 1 0 1),
      ComputeSubTileArea (fromRowColumnLevel 1 0 1) 0 16200,
      Push (childEntry westView quadTree (Some patchyElevation) (fromRowColumnLevel 1 0 1) 0),
      GetElevationRange (fromRowColumnLevel 1 1 1),
      ComputeSubTileArea (fromRowColumnLevel 1 1 1) 0 0]"
  by (simp add: afterChildren_def childEvents_def levelOne_def westView_area westView_visible
        useElevationRangeSource_def patchyElevation_def)

lemma patchy_flag:
  "calculationFinal (afterChildren westView quadTree (Some patchyElevation) 0 levelOne s) = False"
  by (simp add: afterChildren_def childrenPrecise_def useElevationRangeSource_def levelOne_def
        elevationPrecise_def patchyElevation_def fromRowColumnLevel_def)

lemma patchy_entry:
  "childEntry westView quadTree (Some patchyElevation) (fromRowColumnLevel r 0 (Suc 0)) 0 =
     newTileKeyEntry (fromRowColumnLevel r 0 (Suc 0)) (Num 16200) 0 0 100"
  by (simp add: childEntry_def westView_area)
     (simp add: childGeoBox_def getGeoBox_def useElevationRangeSource_def patchyElevation_def Let_def)

lemma westView_selected:
  "m_rootTileKeys westView = computeRequiredInitialRootTileKeys westView (position (m_camera westView))"
  by (simp add: westView_roots roots_single westView_def)

lemma plain_entry:
  "childEntry westView quadTree None (fromRowColumnLevel r 0 (Suc 0)) 0 =
     newTileKeyEntry (fromRowColumnLevel r 0 (Suc 0)) (Num 16200) 0 0 0"
  by (simp add: childEntry_def westView_area)
     (simp add: childGeoBox_def getGeoBox_def quadTree_def Let_def)

lemma quadTree_children:
  "getSubTileKeys quadTree p =
     [fromRowColumnLevel (2 * row p) (2 * column p) (Suc (level p)),
      fromRowColumnLevel (2 * row p) (2 * column p + 1) (Suc (level p)),
      fromRowColumnLevel (2 * row p + 1) (2 * column p) (Suc (level p)),
      fromRowColumnLevel (2 * row p + 1) (2 * column p + 1) (Suc (level p))]"
  by (simp add: quadTree_def)

lemma quadTree_parent:
  assumes "c \<in> set (getSubTileKeys quadTree p)"
  shows "row p = row c div 2" "column p = column c div 2" "level c = Suc (level p)"
  using assms by (auto simp: quadTree_children fromRowColumnLevel_def)

section \<open>The properties\<close>

subsection \<open>No composite key is inserted twice\<close>

text \<open>
  C1. Let the root entries be those of the selector, let the tiling scheme give every
  tile that the traversal can subdivide distinct children one level deeper, with no
  child shared between two such tiles, and let the key codec be injective on the tiles
  the traversal can come to, paired with the offsets of the roots. The loop body goes
  past the assertion for a child exactly when the composite key of the child is not in
  the map. Every call of \<open>compute\<close> returns: the loop ends and no assertion fails, so
  at every insertion the composite key of the child was absent. In the returned map
  every entry is stored under the composite key of its own tile key and offset.
\<close>

theorem no_duplicate_key:
  assumes roots: "m_rootTileKeys fi = computeRequiredInitialRootTileKeys fi worldCenter"
    and children_distinct: "\<forall>p \<in> subdividable fi ts mx. distinct (getSubTileKeys ts p)"
    and children_disjoint:
      "\<forall>p \<in> subdividable fi ts mx. \<forall>p' \<in> subdividable fi ts mx.
         p \<noteq> p' \<longrightarrow> set (getSubTileKeys ts p) \<inter> set (getSubTileKeys ts p') = {}"
    and children_deeper:
      "\<forall>p \<in> subdividable fi ts mx. \<forall>c \<in> set (getSubTileKeys ts p). level c = Suc (level p)"
    and codec_injective:
      "inj_on (\<lambda>(k, off). getKeyForTileKeyAndOffset fi k off)
         (reachable ts mx (m_rootTileKeys fi) \<times> offset ` set (m_rootTileKeys fi))"
  shows "(\<forall>e c s. (\<exists>s'. visitChild fi ts ers e c s = Inr s') \<longleftrightarrow>
            tileKeyEntries s (getKeyForTileKeyAndOffset fi c (offset e)) = None) \<and>
         (\<exists>res. compute fi ts mx ers zs ds = Some (Inr res) \<and> workList res = [] \<and>
            (\<forall>k e. tileKeyEntries res k = Some e \<longrightarrow>
               k = getKeyForTileKeyAndOffset fi (tileKey e) (offset e)))"
proof -
  have "contract fi ts mx"
    unfolding contract_def
    using selector_roots[of fi worldCenter] roots children_distinct children_disjoint
      children_deeper codec_injective
    by simp
  from compute_contract_total[OF this, of ers zs ds] obtain res where
    res: "compute fi ts mx ers zs ds = Some (Inr res)" "treeInv fi ts mx res" "workList res = []"
    by blast
  have "\<forall>k e. tileKeyEntries res k = Some e \<longrightarrow>
      k = getKeyForTileKeyAndOffset fi (tileKey e) (offset e)"
    using treeInv_entry(1)[OF res(2)] by (simp add: keyOf_def)
  with res(1,3) visitChild_Inr_iff[of fi ts ers] show ?thesis by blast
qed

theorem no_duplicate_key_witness:
  "\<exists>res. compute westView quadTree 2 None [0] [alwaysSubdivide] = Some (Inr res) \<and>
     workList res = []"
proof -
  have t1: "\<forall>p \<in> subdividable westView quadTree 2. distinct (getSubTileKeys quadTree p)"
    by (simp add: quadTree_children fromRowColumnLevel_def)
  have t2: "\<forall>p \<in> subdividable westView quadTree 2. \<forall>p' \<in> subdividable westView quadTree 2.
         p \<noteq> p' \<longrightarrow> set (getSubTileKeys quadTree p) \<inter> set (getSubTileKeys quadTree p') = {}"
  proof (intro ballI impI)
    fix p p' :: TileKey assume ne: "p \<noteq> p'"
    show "set (getSubTileKeys quadTree p) \<inter> set (getSubTileKeys quadTree p') = {}"
    proof (rule ccontr)
      assume "set (getSubTileKeys quadTree p) \<inter> set (getSubTileKeys quadTree p') \<noteq> {}"
      then obtain c where "c \<in> set (getSubTileKeys quadTree p)" "c \<in> set (getSubTileKeys quadTree p')"
        by blast
      from quadTree_parent[OF this(1)] quadTree_parent[OF this(2)] have "p = p'" by simp
      with ne show False by simp
    qed
  qed
  have t3: "\<forall>p \<in> subdividable westView quadTree 2.
      \<forall>c \<in> set (getSubTileKeys quadTree p). level c = Suc (level p)"
    using quadTree_parent(3) by blast
  have k: "inj_on (\<lambda>(k, off). getKeyForTileKeyAndOffset westView k off)
         (reachable quadTree 2 (m_rootTileKeys westView) \<times> offset ` set (m_rootTileKeys westView))"
    unfolding westView_codec by (rule keyCodec_inj_on)
  from no_duplicate_key[OF westView_selected t1 t2 t3 k, of None "[0]" "[alwaysSubdivide]"]
  show ?thesis by blast
qed

subsection \<open>The flag \<open>calculationFinal\<close>\<close>

text \<open>
  C2. The flag \<open>calculationFinal\<close> starts true, neither the visit of a child nor a round
  of the loop turns it from false to true, and in a returned result it is true if and only if every elevation query made
  during the traversal returned the status \<open>FinalPrecise\<close>. The queries are one for each
  candidate child, in order, when an elevation source with the tiling scheme of the call
  is in use, and none otherwise.
\<close>

theorem calculationFinal_iff:
  assumes "compute fi ts mx ers zs ds = Some (Inr res)"
  shows "calculationFinal (initialTraversal fi) \<and>
     (\<forall>e c s s'. visitChild fi ts ers e c s = Inr s' \<and> calculationFinal s' \<longrightarrow>
        calculationFinal s) \<and>
     (\<forall>s s'. step fi ts mx ers zs ds s = Inr s' \<and> calculationFinal s' \<longrightarrow> calculationFinal s) \<and>
     (calculationFinal res \<longleftrightarrow>
        (\<forall>k \<in> set (queriedTiles (trace res)). \<forall>src. ers = Some src \<longrightarrow> elevationPrecise src k)) \<and>
     queriedTiles (trace res) =
       (if useElevationRangeSource ts ers then map fst (candidateChildren (trace res)) else [])"
proof (intro conjI)
  show "calculationFinal (initialTraversal fi)" by (simp add: initialTraversal_def)
  show "\<forall>e c s s'. visitChild fi ts ers e c s = Inr s' \<and> calculationFinal s' \<longrightarrow>
      calculationFinal s"
  proof (intro allI impI)
    fix e c s s' assume h: "visitChild fi ts ers e c s = Inr s' \<and> calculationFinal s'"
    then have "visitChild fi ts ers e c s = Inr s'" by simp
    from visitChild_fields(4)[OF this] h show "calculationFinal s" by simp
  qed
  show "\<forall>s s'. step fi ts mx ers zs ds s = Inr s' \<and> calculationFinal s' \<longrightarrow> calculationFinal s"
    using step_calculationFinal_mono by blast
  note flag = flagInv_compute[OF assms, unfolded flagInv_def]
  from flag show "calculationFinal res \<longleftrightarrow>
      (\<forall>k \<in> set (queriedTiles (trace res)). \<forall>src. ers = Some src \<longrightarrow> elevationPrecise src k)"
    by (rule conjunct1)
  from flag show "queriedTiles (trace res) =
      (if useElevationRangeSource ts ers then map fst (candidateChildren (trace res)) else [])"
    by (rule conjunct2)
qed

theorem calculationFinal_iff_witness:
  "\<exists>res. compute westView quadTree 0 (Some patchyElevation) [0] [alwaysSubdivide] = Some (Inr res) \<and>
     queriedTiles (trace res) = levelOne \<and>
     \<not> elevationPrecise patchyElevation (fromRowColumnLevel 0 1 1) \<and>
     \<not> calculationFinal res"
proof -
  let ?res = "(afterChildren westView quadTree (Some patchyElevation) 0 levelOne
        \<lparr>tileKeyEntries = [keyCodec rootTileKey 0 \<mapsto> newTileKeyEntry rootTileKey Infinity 0 0 0],
         workList = [], calculationFinal = True, trace = []\<rparr>)\<lparr>workList := []\<rparr>"
  have run: "compute westView quadTree 0 (Some patchyElevation) [0] [alwaysSubdivide] = Some (Inr ?res)"
    by (rule westView_run)
  have q: "queriedTiles (trace ?res) = levelOne"
    by (simp add: westView_queries)
  have np: "\<not> elevationPrecise patchyElevation (fromRowColumnLevel 0 1 1)"
    by (simp add: elevationPrecise_def patchyElevation_def fromRowColumnLevel_def)
  have mem: "fromRowColumnLevel 0 1 1 \<in> set levelOne" by (simp add: levelOne_def)
  note iff = calculationFinal_iff[OF run, THEN conjunct2, THEN conjunct2, THEN conjunct2, THEN conjunct1]
  have "\<not> calculationFinal ?res"
  proof
    assume "calculationFinal ?res"
    with iff have "\<forall>k \<in> set (queriedTiles (trace ?res)). \<forall>src. Some patchyElevation = Some src \<longrightarrow>
        elevationPrecise src k" by (rule iffD1)
    with q mem have "elevationPrecise patchyElevation (fromRowColumnLevel 0 1 1)" by simp
    with np show False by simp
  qed
  with run q np show ?thesis by blast
qed

subsection \<open>The root entries\<close>

text \<open>
  C3. When the projection is not planar, or tile wrapping is off, the selector yields one
  root entry, of level 0 and offset 0, whatever the camera. Otherwise it yields
  \<open>2 * offsetRange + 1\<close> entries of level 0, one for each offset from
  \<open>startOffset - offsetRange\<close> to \<open>startOffset + offsetRange\<close> in order, where
  \<open>startOffset\<close> is the longitude of the camera over 360, rounded, and \<open>offsetRange\<close>
  lies between 0 and 7.
\<close>

theorem root_selection:
  "level rootTileKey = 0 \<and>
   (ptype (mapView_projection fi) \<noteq> Planar \<or> \<not> m_tileWrappingEnabled fi \<longrightarrow>
      computeRequiredInitialRootTileKeys fi worldCenter = [newTileKeyEntry rootTileKey (Num 0) 0 0 0]) \<and>
   (ptype (mapView_projection fi) = Planar \<and> m_tileWrappingEnabled fi \<longrightarrow>
      computeRequiredInitialRootTileKeys fi worldCenter =
        map (\<lambda>off. newTileKeyEntry rootTileKey (Num 0) off 0 0)
          [startOffset fi worldCenter - offsetRange fi worldCenter ..
           startOffset fi worldCenter + offsetRange fi worldCenter] \<and>
      int (length (computeRequiredInitialRootTileKeys fi worldCenter)) =
        2 * offsetRange fi worldCenter + 1 \<and>
      startOffset fi worldCenter =
        round (longitude (unprojectPoint (mapView_projection fi) worldCenter) / 360) \<and>
      0 \<le> offsetRange fi worldCenter \<and> offsetRange fi worldCenter \<le> 7)"
proof -
  have bounds: "0 \<le> offsetRange fi worldCenter \<and> offsetRange fi worldCenter \<le> 7"
    by (simp add: offsetRange_def clamp_def Let_def)
  have single: "computeRequiredInitialRootTileKeys fi worldCenter =
      [newTileKeyEntry rootTileKey (Num 0) 0 0 0]"
    if "ptype (mapView_projection fi) \<noteq> Planar \<or> \<not> m_tileWrappingEnabled fi"
    using that by (auto simp: computeRequiredInitialRootTileKeys_def rootTileKey_def)
  have many: "computeRequiredInitialRootTileKeys fi worldCenter =
      map (\<lambda>off. newTileKeyEntry rootTileKey (Num 0) off 0 0)
        [startOffset fi worldCenter - offsetRange fi worldCenter ..
         startOffset fi worldCenter + offsetRange fi worldCenter]"
    if "ptype (mapView_projection fi) = Planar" "m_tileWrappingEnabled fi"
    using that by (simp add: computeRequiredInitialRootTileKeys_def rootTileKey_def Let_def add.commute)
  have len: "int (length (map (\<lambda>off. newTileKeyEntry rootTileKey (Num 0) off 0 0)
        [startOffset fi worldCenter - offsetRange fi worldCenter ..
         startOffset fi worldCenter + offsetRange fi worldCenter])) =
      2 * offsetRange fi worldCenter + 1"
    using bounds by simp
  have start: "startOffset fi worldCenter =
      round (longitude (unprojectPoint (mapView_projection fi) worldCenter) / 360)"
    by (simp add: startOffset_def)
  have lvl: "level rootTileKey = 0"
    by (simp add: rootTileKey_def fromRowColumnLevel_def)
  show ?thesis
  proof (intro conjI impI)
    show "level rootTileKey = 0" by (rule lvl)
    show "computeRequiredInitialRootTileKeys fi worldCenter =
        [newTileKeyEntry rootTileKey (Num 0) 0 0 0]"
      if "ptype (mapView_projection fi) \<noteq> Planar \<or> \<not> m_tileWrappingEnabled fi"
      using that by (rule single)
    show "computeRequiredInitialRootTileKeys fi worldCenter =
        map (\<lambda>off. newTileKeyEntry rootTileKey (Num 0) off 0 0)
          [startOffset fi worldCenter - offsetRange fi worldCenter ..
           startOffset fi worldCenter + offsetRange fi worldCenter]"
      if "ptype (mapView_projection fi) = Planar \<and> m_tileWrappingEnabled fi"
      using that many by simp
    show "int (length (computeRequiredInitialRootTileKeys fi worldCenter)) =
        2 * offsetRange fi worldCenter + 1"
      if "ptype (mapView_projection fi) = Planar \<and> m_tileWrappingEnabled fi"
      using that many len by simp
    show "startOffset fi worldCenter =
        round (longitude (unprojectPoint (mapView_projection fi) worldCenter) / 360)"
      by (rule start)
    show "0 \<le> offsetRange fi worldCenter" "offsetRange fi worldCenter \<le> 7"
      using bounds by simp_all
  qed
qed

theorem root_selection_witness:
  "map offset (computeRequiredInitialRootTileKeys wrapView (position (m_camera wrapView))) =
     [- 2, - 1, 0, 1, 2, 3, 4] \<and>
   computeRequiredInitialRootTileKeys westView (position (m_camera westView)) =
     [newTileKeyEntry rootTileKey (Num 0) 0 0 0]"
proof -
  have planar: "ptype (mapView_projection wrapView) = Planar \<and> m_tileWrappingEnabled wrapView"
    by (simp add: wrapView_def westView_def flatProjection_def)
  have off: "\<not> m_tileWrappingEnabled westView"
    by (simp add: westView_def)
  from root_selection[of wrapView "position (m_camera wrapView)"] planar
  have "computeRequiredInitialRootTileKeys wrapView (position (m_camera wrapView)) =
      map (\<lambda>off. newTileKeyEntry rootTileKey (Num 0) off 0 0) [- 2 .. 4]"
    by (simp add: wrapView_offsetRange wrapView_startOffset)
  moreover have "[- 2 .. (4::int)] = [- 2, - 1, 0, 1, 2, 3, 4]"
    by (simp add: upto.simps)
  ultimately have "map offset (computeRequiredInitialRootTileKeys wrapView (position (m_camera wrapView))) =
      [- 2, - 1, 0, 1, 2, 3, 4]"
    by (simp add: newTileKeyEntry_def)
  moreover from root_selection[of westView "position (m_camera westView)"] off
  have "computeRequiredInitialRootTileKeys westView (position (m_camera westView)) =
      [newTileKeyEntry rootTileKey (Num 0) 0 0 0]"
    by simp
  ultimately show ?thesis by simp
qed

subsection \<open>A traversal with \<open>maxTileLevel = 0\<close>\<close>

text \<open>
  C4. The claim is that with a single projection that does not wrap, one data source
  that always votes to subdivide and \<open>maxTileLevel = 0\<close>, the returned map holds the
  root entry of level 0 with unbounded area and nothing else; the documentation of
  \<^verbatim>\<open>compute\<close> calls \<open>maxTileLevel\<close> the maximum tile level that is checked for
  intersections. The source does otherwise. A popped tile is skipped only when its level
  is greater than \<open>maxTileLevel\<close>, so the root passes at \<open>maxTileLevel = 0\<close>. In the
  concrete setting (tile wrapping off, the roots as the selector gives them) the area
  estimator is then called on the four tiles of level 1, and the returned map holds the
  two of them with a positive area beside the root.
\<close>

theorem maxTileLevel_zero_run:
  "\<not> m_tileWrappingEnabled westView \<and>
   m_rootTileKeys westView =
     computeRequiredInitialRootTileKeys westView (position (m_camera westView)) \<and>
   shouldSubdivide alwaysSubdivide = (\<lambda>zoomLevel k. True) \<and>
   (\<exists>res. compute westView quadTree 0 None [0] [alwaysSubdivide] = Some (Inr res) \<and>
      estimatedAreas (trace res) =
        [((fromRowColumnLevel 0 0 1, 0), 16200), ((fromRowColumnLevel 0 1 1, 0), 0),
         ((fromRowColumnLevel 1 0 1, 0), 16200), ((fromRowColumnLevel 1 1 1, 0), 0)] \<and>
      tileKeyEntries res (keyCodec rootTileKey 0) =
        Some (newTileKeyEntry rootTileKey Infinity 0 0 0) \<and>
      tileKeyEntries res (keyCodec (fromRowColumnLevel 0 0 1) 0) =
        Some (newTileKeyEntry (fromRowColumnLevel 0 0 1) (Num 16200) 0 0 0) \<and>
      tileKeyEntries res (keyCodec (fromRowColumnLevel 1 0 1) 0) =
        Some (newTileKeyEntry (fromRowColumnLevel 1 0 1) (Num 16200) 0 0 0) \<and>
      dom (tileKeyEntries res) =
        {keyCodec rootTileKey 0, keyCodec (fromRowColumnLevel 0 0 1) 0,
         keyCodec (fromRowColumnLevel 1 0 1) 0} \<and>
      dom (tileKeyEntries res) \<noteq> {keyCodec rootTileKey 0})"
proof -
  let ?res = "(afterChildren westView quadTree None 0 levelOne
        \<lparr>tileKeyEntries = [keyCodec rootTileKey 0 \<mapsto> newTileKeyEntry rootTileKey Infinity 0 0 0],
         workList = [], calculationFinal = True, trace = []\<rparr>)\<lparr>workList := []\<rparr>"
  have run: "compute westView quadTree 0 None [0] [alwaysSubdivide] = Some (Inr ?res)"
    by (rule westView_run)
  have est: "estimatedAreas (trace ?res) =
        [((fromRowColumnLevel 0 0 1, 0), 16200), ((fromRowColumnLevel 0 1 1, 0), 0),
         ((fromRowColumnLevel 1 0 1, 0), 16200), ((fromRowColumnLevel 1 1 1, 0), 0)]"
    by (simp add: westView_estimated)
  have e0: "tileKeyEntries ?res (keyCodec rootTileKey 0) =
      Some (newTileKeyEntry rootTileKey Infinity 0 0 0)"
    using levelOne_keys(2) by (simp add: afterChildren_other westView_codec)
  have e1: "tileKeyEntries ?res (keyCodec (fromRowColumnLevel 0 0 1) 0) =
       Some (newTileKeyEntry (fromRowColumnLevel 0 0 1) (Num 16200) 0 0 0)"
    using afterChildren_lookup[of westView 0 levelOne "fromRowColumnLevel 0 0 1" quadTree None]
      levelOne_keys(1)
    by (simp add: westView_codec westView_visible plain_entry levelOne_def)
  have e2: "tileKeyEntries ?res (keyCodec (fromRowColumnLevel 1 0 1) 0) =
       Some (newTileKeyEntry (fromRowColumnLevel 1 0 1) (Num 16200) 0 0 0)"
    using afterChildren_lookup[of westView 0 levelOne "fromRowColumnLevel 1 0 1" quadTree None]
      levelOne_keys(1)
    by (simp add: westView_codec westView_visible plain_entry levelOne_def)
  have d: "dom (tileKeyEntries ?res) =
       {keyCodec rootTileKey 0, keyCodec (fromRowColumnLevel 0 0 1) 0,
        keyCodec (fromRowColumnLevel 1 0 1) 0}"
    by (simp add: westView_dom) blast
  have "keyCodec (fromRowColumnLevel 0 0 1) 0 \<in> dom (tileKeyEntries ?res)"
    using e1 by blast
  moreover have "keyCodec (fromRowColumnLevel 0 0 1) 0 \<noteq> keyCodec rootTileKey 0"
    by (simp add: rootTileKey_def fromRowColumnLevel_def)
  ultimately have nd: "dom (tileKeyEntries ?res) \<noteq> {keyCodec rootTileKey 0}" by blast
  have nw: "\<not> m_tileWrappingEnabled westView" by (simp add: westView_def)
  have vote: "shouldSubdivide alwaysSubdivide = (\<lambda>zoomLevel k. True)"
    by (simp add: alwaysSubdivide_def)
  from run est e0 e1 e2 d nd
  have "\<exists>res. compute westView quadTree 0 None [0] [alwaysSubdivide] = Some (Inr res) \<and>
      estimatedAreas (trace res) =
        [((fromRowColumnLevel 0 0 1, 0), 16200), ((fromRowColumnLevel 0 1 1, 0), 0),
         ((fromRowColumnLevel 1 0 1, 0), 16200), ((fromRowColumnLevel 1 1 1, 0), 0)] \<and>
      tileKeyEntries res (keyCodec rootTileKey 0) =
        Some (newTileKeyEntry rootTileKey Infinity 0 0 0) \<and>
      tileKeyEntries res (keyCodec (fromRowColumnLevel 0 0 1) 0) =
        Some (newTileKeyEntry (fromRowColumnLevel 0 0 1) (Num 16200) 0 0 0) \<and>
      tileKeyEntries res (keyCodec (fromRowColumnLevel 1 0 1) 0) =
        Some (newTileKeyEntry (fromRowColumnLevel 1 0 1) (Num 16200) 0 0 0) \<and>
      dom (tileKeyEntries res) =
        {keyCodec rootTileKey 0, keyCodec (fromRowColumnLevel 0 0 1) 0,
         keyCodec (fromRowColumnLevel 1 0 1) 0} \<and>
      dom (tileKeyEntries res) \<noteq> {keyCodec rootTileKey 0}"
    by (intro exI[of _ ?res] conjI)
  with nw westView_selected vote show ?thesis by (intro conjI)
qed

subsection \<open>The offset range\<close>

text \<open>
  C5. In the wraparound branch \<open>offsetRange\<close> is the value described in the claim: the
  half horizontal field of view is half the vertical one times the aspect ratio, of which
  the reciprocal is taken when it is below 1 (so that it is at least 1 for a positive
  aspect ratio); the horizontal reach is \<open>tan (halfFovHorizontal + pitch) * height\<close> minus
  \<open>tan pitch * height\<close>; the point displaced by that reach is unprojected to a second
  longitude; and \<open>offsetRange\<close> is the ceiling of the absolute longitude difference over
  360 times the square root of 2, clamped to the range from 0 to 7.
\<close>

theorem offsetRange_formula:
  "offsetRange fi worldCenter = offsetRange_spec fi worldCenter \<and>
   (0 < aspect (m_camera fi) \<longrightarrow> 1 \<le> clampedAspect (m_camera fi))"
proof -
  have asp: "(if aspect (m_camera fi) > 1 then aspect (m_camera fi) else 1 / aspect (m_camera fi)) =
      clampedAspect (m_camera fi)"
    by (auto simp: clampedAspect_def)
  have "offsetRange fi worldCenter = offsetRange_spec fi worldCenter"
    unfolding offsetRange_def offsetRange_spec_def longitudeDelta_def horizontalReach_def
      halfFovHorizontal_def Let_def asp clamp_def
    by (simp add: algebra_simps)
  moreover have "1 \<le> clampedAspect (m_camera fi)" if "0 < aspect (m_camera fi)"
    using that by (simp add: clampedAspect_def)
  ultimately show ?thesis by simp
qed

theorem offsetRange_formula_witness:
  "offsetRange_spec wrapView (position (m_camera wrapView)) = 3 \<and>
   1 \<le> clampedAspect (m_camera wrapView)"
proof -
  have pos: "0 < aspect (m_camera wrapView)"
    by (simp add: wrapView_def westView_def)
  from offsetRange_formula[of wrapView "position (m_camera wrapView)"] pos
  show ?thesis by (simp add: wrapView_offsetRange)
qed

subsection \<open>Pruned children\<close>

text \<open>
  C6. Let a call return, with a key codec that tells the candidate children of the call
  apart. A candidate child for which the area estimator returned 0 (or less) has no entry
  under its composite key in the returned map and was never pushed on the work list; and
  every entry of the returned map that is not a root entry has an area greater than 0.
\<close>

theorem pruned_child_absent:
  assumes run: "compute fi ts mx ers zs ds = Some (Inr res)"
    and inj: "inj_on (\<lambda>(c, off). getKeyForTileKeyAndOffset fi c off)
                (set (candidateChildren (trace res)))"
  shows "(\<forall>c off a. ((c, off), a) \<in> set (estimatedAreas (trace res)) \<and> a \<le> 0 \<longrightarrow>
            tileKeyEntries res (getKeyForTileKeyAndOffset fi c off) = None \<and>
            (\<forall>e \<in> set (pushedEntries (trace res)). (tileKey e, offset e) \<noteq> (c, off))) \<and>
         (\<forall>k e. tileKeyEntries res k = Some e \<longrightarrow>
            (\<exists>item \<in> set (m_rootTileKeys fi). k = keyOf fi item \<and> e = rootEntry item) \<or>
            (\<exists>a. area e = Num a \<and> 0 < a))"
proof (intro conjI allI impI)
  note inv = entriesInv_compute[OF run]
  {
    fix c off a assume h: "((c, off), a) \<in> set (estimatedAreas (trace res)) \<and> a \<le> 0"
    then have a: "a = childArea fi (childGeoBox ts ers c off)"
      using entriesInv_area[OF inv] by blast
    with h have nv: "\<not> childVisible fi ts ers c off" by (simp add: childVisible_def)
    from h have cand: "(c, off) \<in> set (candidateChildren (trace res))"
      by (force simp: candidateChildren_def)
    then have notroot: "\<forall>item \<in> set (m_rootTileKeys fi).
        getKeyForTileKeyAndOffset fi c off \<noteq> keyOf fi item"
      using entriesInv_candidate[OF inv] by blast
    show "tileKeyEntries res (getKeyForTileKeyAndOffset fi c off) = None"
    proof (rule ccontr)
      assume "tileKeyEntries res (getKeyForTileKeyAndOffset fi c off) \<noteq> None"
      then obtain e where e: "tileKeyEntries res (getKeyForTileKeyAndOffset fi c off) = Some e"
        by blast
      from entriesInv_entry[OF inv e] notroot
      have e': "(tileKey e, offset e) \<in> set (candidateChildren (trace res))"
        "getKeyForTileKeyAndOffset fi c off = keyOf fi e" "childVisible fi ts ers (tileKey e) (offset e)"
        by blast+
      from inj cand e'(1) e'(2) have "(c, off) = (tileKey e, offset e)"
        by (auto simp: inj_on_def keyOf_def)
      with e'(3) nv show False by simp
    qed
    show "\<forall>e \<in> set (pushedEntries (trace res)). (tileKey e, offset e) \<noteq> (c, off)"
      using entriesInv_pushed[OF inv] nv by auto
  }
  fix k e assume "tileKeyEntries res k = Some e"
  from entriesInv_entry[OF inv this]
  have "(\<exists>item \<in> set (m_rootTileKeys fi). k = keyOf fi item \<and> e = rootEntry item) \<or>
      (e = childEntry fi ts ers (tileKey e) (offset e) \<and> childVisible fi ts ers (tileKey e) (offset e))"
    by blast
  then show "(\<exists>item \<in> set (m_rootTileKeys fi). k = keyOf fi item \<and> e = rootEntry item) \<or>
      (\<exists>a. area e = Num a \<and> 0 < a)"
  proof
    assume "e = childEntry fi ts ers (tileKey e) (offset e) \<and> childVisible fi ts ers (tileKey e) (offset e)"
    then have "area e = Num (childArea fi (childGeoBox ts ers (tileKey e) (offset e)))"
      "0 < childArea fi (childGeoBox ts ers (tileKey e) (offset e))"
      by (metis childEntry_sel(3), simp add: childVisible_def)
    then show ?thesis by blast
  qed blast
qed

theorem pruned_child_absent_witness:
  "\<exists>res. compute westView quadTree 0 None [0] [alwaysSubdivide] = Some (Inr res) \<and>
     ((fromRowColumnLevel 0 1 1, 0), 0) \<in> set (estimatedAreas (trace res)) \<and>
     tileKeyEntries res (keyCodec (fromRowColumnLevel 0 1 1) 0) = None"
proof -
  let ?res = "(afterChildren westView quadTree None 0 levelOne
        \<lparr>tileKeyEntries = [keyCodec rootTileKey 0 \<mapsto> newTileKeyEntry rootTileKey Infinity 0 0 0],
         workList = [], calculationFinal = True, trace = []\<rparr>)\<lparr>workList := []\<rparr>"
  have run: "compute westView quadTree 0 None [0] [alwaysSubdivide] = Some (Inr ?res)"
    by (rule westView_run)
  have inj: "inj_on (\<lambda>(c, off). getKeyForTileKeyAndOffset westView c off)
      (set (candidateChildren (trace ?res)))"
    unfolding westView_codec by (rule keyCodec_inj_on)
  have est: "((fromRowColumnLevel 0 1 1, 0), 0) \<in> set (estimatedAreas (trace ?res))"
    by (simp add: westView_estimated)
  from pruned_child_absent[OF run inj] est
  have "tileKeyEntries ?res (getKeyForTileKeyAndOffset westView (fromRowColumnLevel 0 1 1) 0) = None"
    by blast
  with run est show ?thesis unfolding westView_codec by blast
qed

subsection \<open>The area of an axis-aligned box\<close>

text \<open>
  C7. For an axis-aligned box the area estimator returns 0 when the pre-culler, asked
  only if extended frustum culling is on, or the frustum test rejects the box. Otherwise
  the four ground corners of the box (\<open>z = 0\<close>) go through the view-projection matrix,
  and the result is half the absolute value of the shoelace sum over that contour.
\<close>

theorem computeSubTileArea_axis_aligned:
  "computeSubTileArea fi (AxisAligned box) =
     (if (if m_extendedFrustumCulling fi
          then m_mapTileCuller_frustumIntersectsTileBox fi box else True)
         \<and> m_frustum_intersectsBox fi box
      then \<bar>shoelace4
              (groundCorner fi (vx (box_min box)) (vy (box_min box)))
              (groundCorner fi (vx (box_max box)) (vy (box_min box)))
              (groundCorner fi (vx (box_max box)) (vy (box_max box)))
              (groundCorner fi (vx (box_min box)) (vy (box_max box)))\<bar> / 2
      else 0)"
  by (rule computeSubTileArea_box)

subsection \<open>An elevation source of another tiling scheme\<close>

text \<open>
  C8. When the tiling scheme of the elevation source is not the tiling scheme of the call,
  the call does what it does without an elevation source: the two calls have the same
  outcome, trace included. In a returned result the source was never queried,
  \<open>calculationFinal\<close> is true, and every entry that is not a root entry has the altitudes
  of the box of the tiling scheme as its elevations.
\<close>

theorem mismatched_elevation_source_ignored:
  assumes "ts_ref (getTilingScheme src) \<noteq> ts_ref ts"
  shows "compute fi ts mx (Some src) zs ds = compute fi ts mx None zs ds \<and>
     (\<forall>res. compute fi ts mx (Some src) zs ds = Some (Inr res) \<longrightarrow>
        queriedTiles (trace res) = [] \<and> calculationFinal res \<and>
        (\<forall>k e. tileKeyEntries res k = Some e \<longrightarrow>
           (\<exists>item \<in> set (m_rootTileKeys fi). e = rootEntry item) \<or>
           (minElevation e = altitude (southWest (ts_getGeoBox ts (tileKey e))) \<and>
            maxElevation e = altitude (northEast (ts_getGeoBox ts (tileKey e))))))"
proof (intro conjI allI impI)
  show "compute fi ts mx (Some src) zs ds = compute fi ts mx None zs ds"
    by (simp add: compute_def traverse_mismatch[OF assms])
next
  fix res assume run: "compute fi ts mx (Some src) zs ds = Some (Inr res)"
  have nouse: "\<not> useElevationRangeSource ts (Some src)"
    using assms by (simp add: useElevationRangeSource_def)
  note flag = flagInv_compute[OF run, unfolded flagInv_def]
  from flag nouse show q: "queriedTiles (trace res) = []" by simp
  from flag q show "calculationFinal res" by simp
  fix k e assume "tileKeyEntries res k = Some e"
  from entriesInv_entry[OF entriesInv_compute[OF run] this]
  show "(\<exists>item \<in> set (m_rootTileKeys fi). e = rootEntry item) \<or>
        (minElevation e = altitude (southWest (ts_getGeoBox ts (tileKey e))) \<and>
         maxElevation e = altitude (northEast (ts_getGeoBox ts (tileKey e))))"
    using childEntry_no_source[OF nouse, of fi "tileKey e" "offset e"] by metis
qed

theorem mismatched_elevation_source_ignored_witness:
  "compute westView quadTree 0 (Some foreignElevation) [0] [alwaysSubdivide] =
     compute westView quadTree 0 None [0] [alwaysSubdivide] \<and>
   (\<exists>res. compute westView quadTree 0 (Some foreignElevation) [0] [alwaysSubdivide] = Some (Inr res) \<and>
      queriedTiles (trace res) = [] \<and> calculationFinal res)"
proof -
  have ne: "ts_ref (getTilingScheme foreignElevation) \<noteq> ts_ref quadTree"
    by (simp add: foreignElevation_def otherScheme_def quadTree_def)
  from mismatched_elevation_source_ignored[OF ne, of westView 0 "[0]" "[alwaysSubdivide]"]
    westView_run[of "Some foreignElevation"]
  show ?thesis by blast
qed

subsection \<open>A pruned child clears the flag\<close>

text \<open>
  C9. There is a call of \<open>compute\<close> whose returned \<open>calculationFinal\<close> is false
  although every entry of the returned map was built from an elevation range of status
  \<open>FinalPrecise\<close>: in the concrete setting, with the patchy elevation source and
  \<open>maxTileLevel = 0\<close>, the child in row 0 and column 1 is queried (its range is
  approximate) before its area is estimated, the area is 0, and the child is pruned;
  the map holds the root and the two children of column 0, whose ranges are exact.
\<close>

theorem pruned_child_clears_flag:
  "\<exists>res. compute westView quadTree 0 (Some patchyElevation) [0] [alwaysSubdivide] = Some (Inr res) \<and>
     calculationFinal res = False \<and>
     dom (tileKeyEntries res) =
       {keyCodec rootTileKey 0, keyCodec (fromRowColumnLevel 0 0 1) 0,
        keyCodec (fromRowColumnLevel 1 0 1) 0} \<and>
     tileKeyEntries res (keyCodec rootTileKey 0) = Some (newTileKeyEntry rootTileKey Infinity 0 0 0) \<and>
     tileKeyEntries res (keyCodec (fromRowColumnLevel 0 0 1) 0) =
       Some (newTileKeyEntry (fromRowColumnLevel 0 0 1) (Num 16200) 0 0 100) \<and>
     tileKeyEntries res (keyCodec (fromRowColumnLevel 1 0 1) 0) =
       Some (newTileKeyEntry (fromRowColumnLevel 1 0 1) (Num 16200) 0 0 100) \<and>
     calculationStatus (getElevationRange patchyElevation (fromRowColumnLevel 0 0 1)) = FinalPrecise \<and>
     calculationStatus (getElevationRange patchyElevation (fromRowColumnLevel 1 0 1)) = FinalPrecise \<and>
     calculationStatus (getElevationRange patchyElevation (fromRowColumnLevel 0 1 1)) = Approximate \<and>
     take 2 (drop 3 (trace res)) =
       [GetElevationRange (fromRowColumnLevel 0 1 1),
        ComputeSubTileArea (fromRowColumnLevel 0 1 1) 0 0]"
proof -
  let ?res = "(afterChildren westView quadTree (Some patchyElevation) 0 levelOne
        \<lparr>tileKeyEntries = [keyCodec rootTileKey 0 \<mapsto> newTileKeyEntry rootTileKey Infinity 0 0 0],
         workList = [], calculationFinal = True, trace = []\<rparr>)\<lparr>workList := []\<rparr>"
  have run: "compute westView quadTree 0 (Some patchyElevation) [0] [alwaysSubdivide] = Some (Inr ?res)"
    using westView_roots westView_codec by (rule quadTree_run)
  have flag: "calculationFinal ?res = False" by (simp add: patchy_flag)
  have d: "dom (tileKeyEntries ?res) =
       {keyCodec rootTileKey 0, keyCodec (fromRowColumnLevel 0 0 1) 0,
        keyCodec (fromRowColumnLevel 1 0 1) 0}"
    by (simp add: westView_dom) blast
  have e0: "tileKeyEntries ?res (keyCodec rootTileKey 0) = Some (newTileKeyEntry rootTileKey Infinity 0 0 0)"
    using levelOne_keys(2) by (simp add: afterChildren_other westView_codec)
  have e1: "tileKeyEntries ?res (keyCodec (fromRowColumnLevel 0 0 1) 0) =
       Some (newTileKeyEntry (fromRowColumnLevel 0 0 1) (Num 16200) 0 0 100)"
    using afterChildren_lookup[of westView 0 levelOne "fromRowColumnLevel 0 0 1" quadTree "Some patchyElevation"]
      levelOne_keys(1)
    by (simp add: westView_codec westView_visible patchy_entry levelOne_def)
  have e2: "tileKeyEntries ?res (keyCodec (fromRowColumnLevel 1 0 1) 0) =
       Some (newTileKeyEntry (fromRowColumnLevel 1 0 1) (Num 16200) 0 0 100)"
    using afterChildren_lookup[of westView 0 levelOne "fromRowColumnLevel 1 0 1" quadTree "Some patchyElevation"]
      levelOne_keys(1)
    by (simp add: westView_codec westView_visible patchy_entry levelOne_def)
  have st: "calculationStatus (getElevationRange patchyElevation (fromRowColumnLevel 0 0 1)) = FinalPrecise"
     "calculationStatus (getElevationRange patchyElevation (fromRowColumnLevel 1 0 1)) = FinalPrecise"
     "calculationStatus (getElevationRange patchyElevation (fromRowColumnLevel 0 1 1)) = Approximate"
    by (simp_all add: patchyElevation_def fromRowColumnLevel_def)
  have tr: "take 2 (drop 3 (trace ?res)) =
       [GetElevationRange (fromRowColumnLevel 0 1 1),
        ComputeSubTileArea (fromRowColumnLevel 0 1 1) 0 0]"
    by (simp add: westView_trace)
  from run flag d e0 e1 e2 st tr show ?thesis by blast
qed

subsection \<open>Spherical projections have offset 0\<close>

text \<open>
  C10. For a spherical projection the selector yields the one root entry of offset 0,
  whether tile wrapping is enabled or not, and every entry of the result of a traversal
  from these roots has offset 0.
\<close>

theorem spherical_offsets_zero:
  assumes "ptype (mapView_projection fi) = Spherical"
  shows "computeRequiredInitialRootTileKeys fi worldCenter = [newTileKeyEntry rootTileKey (Num 0) 0 0 0] \<and>
     (\<forall>res k e. m_rootTileKeys fi = computeRequiredInitialRootTileKeys fi worldCenter \<and>
        compute fi ts mx ers zs ds = Some (Inr res) \<and> tileKeyEntries res k = Some e \<longrightarrow> offset e = 0)"
proof (intro conjI allI impI)
  show single: "computeRequiredInitialRootTileKeys fi worldCenter = [newTileKeyEntry rootTileKey (Num 0) 0 0 0]"
    using assms by (simp add: roots_single)
  fix res k e
  assume h: "m_rootTileKeys fi = computeRequiredInitialRootTileKeys fi worldCenter \<and>
        compute fi ts mx ers zs ds = Some (Inr res) \<and> tileKeyEntries res k = Some e"
  then have roots: "m_rootTileKeys fi = [newTileKeyEntry rootTileKey (Num 0) 0 0 0]"
    using single by simp
  from h have run: "compute fi ts mx ers zs ds = Some (Inr res)" by simp
  have inv: "entriesInv fi ts ers res" by (rule entriesInv_compute[OF run])
  from h entriesInv_entry[OF inv, of k e]
  have "(\<exists>item \<in> set (m_rootTileKeys fi). e = rootEntry item) \<or>
        (tileKey e, offset e) \<in> set (candidateChildren (trace res))"
    by blast
  then show "offset e = 0"
  proof
    assume "\<exists>item \<in> set (m_rootTileKeys fi). e = rootEntry item"
    then show ?thesis by (auto simp: roots newTileKeyEntry_def)
  next
    assume "(tileKey e, offset e) \<in> set (candidateChildren (trace res))"
    from entriesInv_candidate[OF inv this] show ?thesis
      by (auto simp: roots newTileKeyEntry_def)
  qed
qed

theorem spherical_offsets_zero_witness:
  "m_tileWrappingEnabled globeView \<and>
   (\<exists>res e. compute globeView quadTree 0 None [0] [alwaysSubdivide] = Some (Inr res) \<and>
      tileKeyEntries res (keyCodec rootTileKey 0) = Some e \<and> offset e = 0)"
proof -
  let ?res = "(afterChildren globeView quadTree None 0 levelOne
        \<lparr>tileKeyEntries = [keyCodec rootTileKey 0 \<mapsto> newTileKeyEntry rootTileKey Infinity 0 0 0],
         workList = [], calculationFinal = True, trace = []\<rparr>)\<lparr>workList := []\<rparr>"
  have sph: "ptype (mapView_projection globeView) = Spherical"
    by (simp add: globeView_def)
  have wrap: "m_tileWrappingEnabled globeView"
    by (simp add: globeView_def)
  have codec: "getKeyForTileKeyAndOffset globeView = keyCodec"
    by (simp add: globeView_def westView_def)
  have roots: "m_rootTileKeys globeView = [newTileKeyEntry rootTileKey (Num 0) 0 0 0]"
    by (simp add: globeView_def westView_def)
  have run: "compute globeView quadTree 0 None [0] [alwaysSubdivide] = Some (Inr ?res)"
    using roots codec by (rule quadTree_run)
  have entry: "tileKeyEntries ?res (keyCodec rootTileKey 0) =
      Some (newTileKeyEntry rootTileKey Infinity 0 0 0)"
    using levelOne_keys(2) by (simp add: afterChildren_other codec)
  from spherical_offsets_zero[OF sph, of "position (m_camera globeView)"] roots run entry
  have "offset (newTileKeyEntry rootTileKey Infinity 0 0 0) = 0"
    by metis
  with wrap run entry show ?thesis by blast
qed

end
